theory Spec2Isabelle
  imports Main
begin

section \<open>Order resolver: \<open>BaseOrganizer\<close> of \<open>pyrunner/runners/base_runner.py\<close>\<close>

text \<open>
  Components are compared by identity in the source (no \<open>__eq__\<close> is defined), so a
  component is a value of an arbitrary type \<open>'c\<close>.  The class attribute
  \<open>direct_feedthrough\<close> is a fixed function \<open>df\<close> on components.  The organizer
  object is a record of its attributes; the flag \<open>is_not_mapped\<close>, stored on each
  component in the source, is a function of the state.  \<open>sys_info[comp]['inputs']\<close>
  is the list \<open>sys_info st cmp\<close>; the source mutates these lists in place and never
  adds or removes a key of \<open>sys_info\<close>.
\<close>

datatype org_error = AlgebraicLoopError | KeyError | ValueError

record 'c organizer =
  sys_info :: "'c \<rightharpoonup> 'c list"
  sys_trail :: "'c list"
  ordered_comps :: "'c list"
  is_not_mapped :: "'c \<Rightarrow> bool"

text \<open>\<open>list.index(x)\<close>: the position of the first occurrence, \<open>ValueError\<close> (here
  \<open>None\<close>) when there is none.\<close>

fun list_index :: "'a list \<Rightarrow> 'a \<Rightarrow> nat option" where
  "list_index [] x = None"
| "list_index (y # ys) x =
     (if y = x then Some 0 else map_option Suc (list_index ys x))"

text \<open>\<open>_get_component_input_in_loop\<close>: the next element of the loop, the first one
  after the last (the \<open>IndexError\<close> handler).\<close>

definition get_component_input_in_loop :: "nat \<Rightarrow> 'c list \<Rightarrow> 'c" where
  "get_component_input_in_loop loop_comp_index sys_loop =
     (if loop_comp_index + 1 < length sys_loop then sys_loop ! (loop_comp_index + 1)
      else sys_loop ! 0)"

text \<open>\<open>_get_loop_components\<close>: the \<open>for\<close> loop over \<open>enumerate(sys_loop)\<close> returns
  at the first index whose loop input is not direct-feedthrough and raises otherwise.\<close>

definition get_loop_components ::
  "('c \<Rightarrow> bool) \<Rightarrow> 'c organizer \<Rightarrow> 'c \<Rightarrow> org_error + ('c \<times> 'c)" where
  "get_loop_components df st cmp =
     (case list_index (sys_trail st) cmp of
        None \<Rightarrow> Inl ValueError
      | Some input_index \<Rightarrow>
          (let sys_loop = drop input_index (sys_trail st) in
           case find (\<lambda>i. \<not> df (get_component_input_in_loop i sys_loop))
                     [0..<length sys_loop] of
             None \<Rightarrow> Inl AlgebraicLoopError
           | Some i \<Rightarrow> Inr (sys_loop ! i, get_component_input_in_loop i sys_loop)))"

text \<open>\<open>_sever_system_loop\<close>: \<open>list.remove\<close> deletes the first occurrence and raises
  \<open>ValueError\<close> when there is none; then the trail is cleared.\<close>

definition sever_system_loop ::
  "('c \<Rightarrow> bool) \<Rightarrow> 'c organizer \<Rightarrow> 'c \<Rightarrow> org_error + 'c organizer" where
  "sever_system_loop df st cmp =
     (case get_loop_components df st cmp of
        Inl e \<Rightarrow> Inl e
      | Inr (non_direct_comp, loop_input_comp) \<Rightarrow>
          (case sys_info st non_direct_comp of
             None \<Rightarrow> Inl KeyError
           | Some inputs \<Rightarrow>
               if loop_input_comp \<in> set inputs
               then Inr (st\<lparr>sys_info := (sys_info st)(non_direct_comp \<mapsto>
                                            remove1 loop_input_comp inputs),
                            sys_trail := []\<rparr>)
               else Inl ValueError))"

text \<open>The tail of \<open>build_system_order\<close> after the \<open>for\<close> loop; \<open>map_component\<close> is
  the one of \<open>seq_runner.Organizer\<close>, which appends to \<open>ordered_comps\<close>.\<close>

definition finish_component :: "'c organizer \<Rightarrow> 'c \<Rightarrow> 'c organizer" where
  "finish_component st cmp =
     (if is_not_mapped st cmp
      then st\<lparr>ordered_comps := ordered_comps st @ [cmp],
              is_not_mapped := (is_not_mapped st)(cmp := False),
              sys_trail := remove1 cmp (sys_trail st)\<rparr>
      else st)"

text \<open>The part of the loop body before the recursive call.\<close>

definition check_feedback ::
  "('c \<Rightarrow> bool) \<Rightarrow> 'c organizer \<Rightarrow> 'c \<Rightarrow> org_error + 'c organizer" where
  "check_feedback df st input_comp =
     (if input_comp \<in> set (sys_trail st) then sever_system_loop df st input_comp
      else Inr st)"

definition record_in_trail :: "'c organizer \<Rightarrow> 'c \<Rightarrow> 'c organizer" where
  "record_in_trail st cmp = st\<lparr>sys_trail := sys_trail st @ [cmp]\<rparr>"

text \<open>
  \<open>build_system_order\<close>.  Python's \<open>for input_comp in comp_inputs\<close> reads the list by
  position, and the list is the one that \<open>_sever_system_loop\<close> shortens while the loop
  runs: \<open>inputs_loop df cmp i st\<close> is the loop of \<open>cmp\<close> standing at position \<open>i\<close>,
  reading the current list.  The recursion is nested and need not end on an infinite
  dictionary; no result is \<open>None\<close>, an exception is \<open>Some (Inl e)\<close>.
\<close>

partial_function (option) inputs_loop ::
  "('c \<Rightarrow> bool) \<Rightarrow> 'c \<Rightarrow> nat \<Rightarrow> 'c organizer \<Rightarrow> (org_error + 'c organizer) option" where
  "inputs_loop df cmp i st =
     (case sys_info st cmp of
        None \<Rightarrow> Some (Inl KeyError)
      | Some cmp_inputs \<Rightarrow>
          if i < length cmp_inputs then
            (case check_feedback df st (cmp_inputs ! i) of
               Inl e \<Rightarrow> Some (Inl e)
             | Inr st1 \<Rightarrow>
                 if is_not_mapped st1 (cmp_inputs ! i) then
                   Option.bind
                     (inputs_loop df (cmp_inputs ! i) 0
                        (record_in_trail st1 (cmp_inputs ! i)))
                     (\<lambda>r. case r of
                            Inl e \<Rightarrow> Some (Inl e)
                          | Inr st2 \<Rightarrow> inputs_loop df cmp (i + 1) st2)
                 else inputs_loop df cmp (i + 1) st1)
          else Some (Inr (finish_component st cmp)))"

definition build_system_order ::
  "('c \<Rightarrow> bool) \<Rightarrow> 'c organizer \<Rightarrow> 'c \<Rightarrow> (org_error + 'c organizer) option" where
  "build_system_order df st cmp = inputs_loop df cmp 0 (record_in_trail st cmp)"

definition new_organizer :: "('c \<rightharpoonup> 'c list) \<Rightarrow> 'c organizer" where
  "new_organizer info =
     \<lparr>sys_info = info, sys_trail = [], ordered_comps = [], is_not_mapped = (\<lambda>_. True)\<rparr>"

declare inputs_loop.simps [code]


text \<open>The example of the specification: \<open>B\<close> depends on \<open>A\<close>, \<open>C\<close> on \<open>B\<close> and
  \<open>A\<close> on \<open>C\<close>; only \<open>C\<close> is not direct-feedthrough.\<close>

definition example_info :: "string \<rightharpoonup> string list" where
  "example_info = [''A'' \<mapsto> [''C''], ''B'' \<mapsto> [''A''], ''C'' \<mapsto> [''B'']]"

definition example_df :: "string \<Rightarrow> bool" where
  "example_df c = (c \<noteq> ''C'')"

text \<open>The organizer of the example when the traversal from \<open>A\<close> has reached \<open>B\<close>
  and is about to look at the input \<open>A\<close> of \<open>B\<close>.\<close>

definition example_on_trail :: "string organizer" where
  "example_on_trail = (new_organizer example_info)\<lparr>sys_trail := [''A'', ''C'', ''B'']\<rparr>"

text \<open>The organizer of the example with \<open>A\<close> already mapped.\<close>

definition example_mapped :: "string organizer" where
  "example_mapped =
     \<lparr>sys_info = example_info, sys_trail = [], ordered_comps = [''A''],
      is_not_mapped = (\<lambda>c. c \<noteq> ''A'')\<rparr>"



text \<open>What a test observes of the organizer: the order, the trail and the inputs left
  for the listed components.\<close>

definition observe :: "'c list \<Rightarrow> 'c organizer \<Rightarrow> 'c list \<times> 'c list \<times> 'c list option list" where
  "observe cs st = (ordered_comps st, sys_trail st, map (sys_info st) cs)"

subsection \<open>Measures of the traversal\<close>

definition inputs_of :: "'c organizer \<Rightarrow> 'c \<Rightarrow> 'c list" where
  "inputs_of st c = (case sys_info st c of None \<Rightarrow> [] | Some l \<Rightarrow> l)"

text \<open>The number of dependency edges in the working data.\<close>

definition edge_count :: "'c organizer \<Rightarrow> nat" where
  "edge_count st = (\<Sum>c\<in>dom (sys_info st). length (inputs_of st c))"

text \<open>The components that may still be entered: not mapped and not on the trail.\<close>

definition pending :: "'c organizer \<Rightarrow> 'c set" where
  "pending st = {c \<in> dom (sys_info st). is_not_mapped st c \<and> c \<notin> set (sys_trail st)}"

definition progresses :: "'c organizer \<Rightarrow> 'c organizer \<Rightarrow> bool" where
  "progresses st st' \<longleftrightarrow>
     dom (sys_info st') = dom (sys_info st) \<and>
     (\<forall>c. length (inputs_of st' c) \<le> length (inputs_of st c)) \<and>
     (edge_count st' < edge_count st \<or> card (pending st') \<le> card (pending st))"

definition loop_measure :: "'c organizer \<times> 'c \<times> nat \<Rightarrow> nat \<times> nat \<times> nat" where
  "loop_measure x =
     (edge_count (fst x), card (pending (fst x)),
      length (inputs_of (fst x) (fst (snd x))) - snd (snd x))"

definition loop_order :: "(('c organizer \<times> 'c \<times> nat) \<times> ('c organizer \<times> 'c \<times> nat)) set" where
  "loop_order = inv_image (less_than <*lex*> less_than <*lex*> less_than) loop_measure"

subsection \<open>The dependency graph and the invariant of the traversal\<close>

text \<open>\<open>(c, d) \<in> edges st\<close>: component \<open>c\<close> has \<open>d\<close> among its inputs.\<close>

definition edges :: "'c organizer \<Rightarrow> ('c \<times> 'c) set" where
  "edges st = {(c, d). d \<in> set (inputs_of st c)}"

text \<open>The edges between direct-feedthrough components: a cycle of them is an algebraic
  loop.\<close>

definition df_edges :: "('c \<Rightarrow> bool) \<Rightarrow> 'c organizer \<Rightarrow> ('c \<times> 'c) set" where
  "df_edges df st = {(c, d). d \<in> set (inputs_of st c) \<and> df c \<and> df d}"

definition algebraic_loop :: "('c \<Rightarrow> bool) \<Rightarrow> 'c organizer \<Rightarrow> bool" where
  "algebraic_loop df st \<longleftrightarrow> (\<exists>x. (x, x) \<in> (df_edges df st)\<^sup>+)"

text \<open>The edges into a direct-feedthrough component; severance never removes one.\<close>

definition kept_edges :: "('c \<Rightarrow> bool) \<Rightarrow> 'c organizer \<Rightarrow> ('c \<times> 'c) set" where
  "kept_edges df st = {(c, d). d \<in> set (inputs_of st c) \<and> df d}"

definition mapped :: "'c organizer \<Rightarrow> 'c \<Rightarrow> bool" where
  "mapped st c \<longleftrightarrow> \<not> is_not_mapped st c"

text \<open>Every input is a component of the system.\<close>

definition closed_info :: "('c \<rightharpoonup> 'c list) \<Rightarrow> bool" where
  "closed_info info \<longleftrightarrow> (\<forall>c l. info c = Some l \<longrightarrow> set l \<subseteq> dom info)"

text \<open>Every component of the list has its inputs before it.\<close>

definition inputs_precede :: "'c organizer \<Rightarrow> bool" where
  "inputs_precede st \<longleftrightarrow>
     (\<forall>j < length (ordered_comps st).
        set (inputs_of st (ordered_comps st ! j)) \<subseteq> set (take j (ordered_comps st)))"

definition trail_is_path :: "'c organizer \<Rightarrow> bool" where
  "trail_is_path st \<longleftrightarrow>
     (\<forall>k. Suc k < length (sys_trail st) \<longrightarrow>
        sys_trail st ! Suc k \<in> set (inputs_of st (sys_trail st ! k)))"

definition org_inv :: "'c organizer \<Rightarrow> bool" where
  "org_inv st \<longleftrightarrow>
     closed_info (sys_info st) \<and>
     distinct (sys_trail st) \<and>
     set (sys_trail st) \<subseteq> dom (sys_info st) \<and>
     (\<forall>c \<in> set (sys_trail st). is_not_mapped st c) \<and>
     trail_is_path st \<and>
     distinct (ordered_comps st) \<and>
     (\<forall>c. c \<in> set (ordered_comps st) \<longleftrightarrow> mapped st c) \<and>
     inputs_precede st"

text \<open>How a later state relates to an earlier one.\<close>

definition evolves :: "('c \<Rightarrow> bool) \<Rightarrow> 'c organizer \<Rightarrow> 'c organizer \<Rightarrow> bool" where
  "evolves df st st' \<longleftrightarrow>
     (\<forall>c. mapped st c \<longrightarrow> mapped st' c) \<and>
     dom (sys_info st') = dom (sys_info st) \<and>
     (\<forall>c. set (inputs_of st' c) \<subseteq> set (inputs_of st c)) \<and>
     (\<forall>c d. d \<in> set (inputs_of st c) \<longrightarrow> d \<notin> set (inputs_of st' c) \<longrightarrow>
        \<not> df d \<and> (mapped st' d \<or> d \<in> set (sys_trail st))) \<and>
     set (sys_trail st') \<subseteq> set (sys_trail st)"

definition loop_pre :: "'c organizer \<Rightarrow> 'c \<Rightarrow> nat \<Rightarrow> bool" where
  "loop_pre st c i \<longleftrightarrow>
     org_inv st \<and> c \<in> dom (sys_info st) \<and>
     (sys_trail st = [] \<or> last (sys_trail st) = c) \<and>
     (is_not_mapped st c \<longrightarrow>
        (\<forall>p < i. p < length (inputs_of st c) \<longrightarrow> mapped st (inputs_of st c ! p)))"

definition loop_post ::
  "('c \<Rightarrow> bool) \<Rightarrow> 'c organizer \<Rightarrow> 'c \<Rightarrow> org_error + 'c organizer \<Rightarrow> bool" where
  "loop_post df st c r =
     (case r of
        Inl e \<Rightarrow> e = AlgebraicLoopError \<and> algebraic_loop df st
      | Inr st' \<Rightarrow>
          org_inv st' \<and> evolves df st st' \<and> mapped st' c \<and>
          (\<forall>x. inputs_of st' x = inputs_of st x \<or> mapped st' x) \<and>
          (sys_trail st' = [] \<or> sys_trail st' = butlast (sys_trail st)) \<and>
          (\<forall>d. is_not_mapped st d \<longrightarrow> mapped st' d \<longrightarrow> (c, d) \<in> (edges st)\<^sup>*))"

section \<open>Name registry: \<open>_NameManager\<close> of \<open>pyrunner/components/systems/diagram.py\<close>\<close>

subsection \<open>Decimal numerals of Python strings\<close>

text \<open>Strings are lists of 8-bit characters; \<open>[0-9]\<close> in a pattern of \<open>re\<close> and the
  digits written by \<open>str\<close> are the ASCII digits.\<close>

definition is_digit :: "char \<Rightarrow> bool" where
  "is_digit c \<longleftrightarrow> 48 \<le> (of_char c :: nat) \<and> (of_char c :: nat) \<le> 57"

definition digit_char :: "nat \<Rightarrow> char" where
  "digit_char n = char_of (48 + n)"

definition digit_val :: "char \<Rightarrow> nat" where
  "digit_val c = of_char c - 48"

text \<open>\<open>str(n)\<close> for an integer \<open>n\<close>.\<close>

fun str_nat :: "nat \<Rightarrow> string" where
  "str_nat n = (if n < 10 then [digit_char n] else str_nat (n div 10) @ [digit_char (n mod 10)])"

definition str_int :: "int \<Rightarrow> string" where
  "str_int i = (if i < 0 then CHR ''-'' # str_nat (nat (- i)) else str_nat (nat i))"

text \<open>\<open>int(s)\<close> for a string of ASCII digits.\<close>

definition int_of_digits :: "string \<Rightarrow> int" where
  "int_of_digits ds = int (foldl (\<lambda>a c. 10 * a + digit_val c) 0 ds)"

subsection \<open>The pattern \<open>(_[1-9][0-9]*)+$\<close>\<close>

text \<open>Without the flag \<open>MULTILINE\<close>, \<open>$\<close> matches at the end of the string and before a
  newline that is its last character.\<close>

definition chomp :: "string \<Rightarrow> string" where
  "chomp s = (if s \<noteq> [] \<and> last s = CHR 0x0A then butlast s else s)"

text \<open>One block \<open>_[1-9][0-9]*\<close> at the end of \<open>s\<close>: what precedes it, and its digits.  The
  character before a block is \<open>_\<close>, so the digits of the block are all the digits that
  end \<open>s\<close>.\<close>

definition strip_index :: "string \<Rightarrow> (string \<times> string) option" where
  "strip_index s =
     (let ds = takeWhile is_digit (rev s); rest = dropWhile is_digit (rev s) in
      if ds \<noteq> [] \<and> last ds \<noteq> CHR ''0'' \<and> rest \<noteq> [] \<and> hd rest = CHR ''_''
      then Some (rev (tl rest), rev ds) else None)"

text \<open>The leftmost match of \<open>(_[1-9][0-9]*)+$\<close> takes every block that ends the string.\<close>

function strip_blocks :: "string \<Rightarrow> string" where
  "strip_blocks s = (case strip_index s of None \<Rightarrow> s | Some (pre, ds) \<Rightarrow> strip_blocks pre)"
  by pat_completeness auto
termination
proof (relation "measure length")
  show "wf (measure length)" by simp
next
  fix s :: string and x2 pre ds
  assume "strip_index s = Some x2" and "(pre, ds) = x2"
  then have "strip_index s = Some (pre, ds)" by simp
  then have "rev pre = tl (dropWhile is_digit (rev s))" and "dropWhile is_digit (rev s) \<noteq> []"
    by (auto simp: strip_index_def Let_def split: if_splits)
  then have "length pre < length (dropWhile is_digit (rev s))"
    by (metis length_rev length_tl diff_less length_greater_0_conv zero_less_one)
  also have "\<dots> \<le> length (rev s)" by (rule length_dropWhile_le)
  finally show "(pre, s) \<in> measure length" by simp
qed

text \<open>\<open>re.search("(_[1-9][0-9]*)+$", name)\<close> finds a match.\<close>

definition has_index_format :: "string \<Rightarrow> bool" where
  "has_index_format name \<longleftrightarrow> strip_index (chomp name) \<noteq> None"

text \<open>\<open>get_name_attrs\<close>: \<open>re.split\<close> gives the text before the match, the last block and
  the text after the match; with no match it gives one string, the unpacking raises
  \<open>ValueError\<close> and the handler returns the name and 0.\<close>

definition get_name_attrs :: "string \<Rightarrow> string \<times> int" where
  "get_name_attrs name =
     (case strip_index (chomp name) of
        None \<Rightarrow> (name, 0)
      | Some (pre, ds) \<Rightarrow> (strip_blocks pre, int_of_digits ds))"

subsection \<open>The registry\<close>

text \<open>\<open>_registry\<close> is a dictionary from names to counts.\<close>

type_synonym registry = "string \<rightharpoonup> int"

datatype reg_error = NameError | MissingKey

text \<open>\<open>_unregister_name\<close>; \<open>self._registry[name]\<close> raises \<open>KeyError\<close> (here
  \<open>MissingKey\<close>) on a name that is not a key.\<close>

definition private_unregister_name :: "registry \<Rightarrow> string \<Rightarrow> reg_error + registry" where
  "private_unregister_name reg name =
     (case reg name of
        None \<Rightarrow> Inl MissingKey
      | Some name_cnt \<Rightarrow>
          if name_cnt = 1 then Inr (reg(name := None))
          else if name_cnt > 1 then Inr (reg(name \<mapsto> name_cnt - 1))
          else Inr reg)"

text \<open>\<open>unregister_name\<close>.  The \<open>else\<close> that raises \<open>NameError\<close> belongs to the outer
  \<open>if\<close>/\<open>elif\<close>; the inner \<open>if basename in self._registry\<close> has no \<open>else\<close>.\<close>

definition unregister_name :: "registry \<Rightarrow> string \<Rightarrow> reg_error + registry" where
  "unregister_name reg name =
     (if reg name \<noteq> None then private_unregister_name reg name
      else if has_index_format name then
        (let basename = fst (get_name_attrs name) in
         if reg basename \<noteq> None then private_unregister_name reg basename else Inr reg)
      else Inl NameError)"

text \<open>\<open>name + "_" + str(count)\<close>.\<close>

definition generated_name :: "string \<Rightarrow> int \<Rightarrow> string" where
  "generated_name name cnt = name @ ''_'' @ str_int cnt"

text \<open>The \<open>while True\<close> loop of \<open>register_name\<close>; it need not end on an infinite
  dictionary.\<close>

partial_function (option) register_loop ::
  "registry \<Rightarrow> string \<Rightarrow> (reg_error + registry \<times> string) option" where
  "register_loop reg name =
     (case reg name of
        None \<Rightarrow> Some (Inl MissingKey)
      | Some cnt \<Rightarrow>
          (let new_name = generated_name name cnt;
               reg1 = reg(name \<mapsto> cnt + 1)
           in if reg1 new_name \<noteq> None
              then (case unregister_name reg1 new_name of
                      Inl e \<Rightarrow> Some (Inl e)
                    | Inr reg2 \<Rightarrow> register_loop reg2 name)
              else Some (Inr (reg1, new_name))))"

declare register_loop.simps [code]

definition register_name :: "registry \<Rightarrow> string \<Rightarrow> (reg_error + registry \<times> string) option" where
  "register_name reg name =
     (if reg name \<noteq> None then register_loop reg name
      else Some (Inr (reg(name \<mapsto> 1), name)))"

text \<open>Registering the names of a list in order, and unregistering them in order.\<close>

fun register_all :: "registry \<Rightarrow> string list \<Rightarrow> (reg_error + registry) option" where
  "register_all reg [] = Some (Inr reg)"
| "register_all reg (name # names) =
     (case register_name reg name of
        None \<Rightarrow> None
      | Some (Inl e) \<Rightarrow> Some (Inl e)
      | Some (Inr (reg', new_name)) \<Rightarrow> register_all reg' names)"

fun unregister_all :: "registry \<Rightarrow> string list \<Rightarrow> reg_error + registry" where
  "unregister_all reg [] = Inr reg"
| "unregister_all reg (name # names) =
     (case unregister_name reg name of
        Inl e \<Rightarrow> Inl e
      | Inr reg' \<Rightarrow> unregister_all reg' names)"

definition round_trip :: "registry \<Rightarrow> string list \<Rightarrow> (reg_error + registry) option" where
  "round_trip reg names =
     (case register_all reg names of
        None \<Rightarrow> None
      | Some (Inl e) \<Rightarrow> Some (Inl e)
      | Some (Inr reg') \<Rightarrow> Some (unregister_all reg' names))"

text \<open>No registration of the list generates a name that is already a key.\<close>

fun collision_free :: "registry \<Rightarrow> string list \<Rightarrow> bool" where
  "collision_free reg [] = True"
| "collision_free reg (name # names) =
     (case reg name of
        None \<Rightarrow> collision_free (reg(name \<mapsto> 1)) names
      | Some cnt \<Rightarrow> reg (generated_name name cnt) = None \<and>
                   collision_free (reg(name \<mapsto> cnt + 1)) names)"

text \<open>What \<open>_unregister_name\<close> leaves of a count.\<close>

definition uncount :: "int \<Rightarrow> int option" where
  "uncount c = (if c = 1 then None else if c > 1 then Some (c - 1) else Some c)"

text \<open>Every count of the registry is at least 1: \<open>register_name\<close> starts a count at 1
  and \<open>_unregister_name\<close> deletes a count of 1.\<close>

definition positive_counts :: "registry \<Rightarrow> bool" where
  "positive_counts reg \<longleftrightarrow> (\<forall>n k. reg n = Some k \<longrightarrow> 1 \<le> k)"

text \<open>The outcome of the loop of \<open>register_name\<close> on a key of count \<open>k\<close>: the index
  \<open>j\<close> of the name returned is the first from \<open>k\<close> on whose generated name is not a key,
  the count becomes \<open>j + 1\<close>, and every generated name passed over is unregistered
  once.\<close>

definition loop_result :: "registry \<Rightarrow> string \<Rightarrow> int \<Rightarrow> registry \<Rightarrow> int \<Rightarrow> bool" where
  "loop_result reg name k reg' j \<longleftrightarrow>
     k \<le> j \<and> reg (generated_name name j) = None \<and>
     (\<forall>i. k \<le> i \<and> i < j \<longrightarrow> reg (generated_name name i) \<noteq> None) \<and>
     reg' name = Some (j + 1) \<and>
     (\<forall>i. k \<le> i \<and> i < j \<longrightarrow>
        reg' (generated_name name i) = Option.bind (reg (generated_name name i)) uncount) \<and>
     (\<forall>n. n \<noteq> name \<and> (\<forall>i. k \<le> i \<and> i < j \<longrightarrow> n \<noteq> generated_name name i) \<longrightarrow> reg' n = reg n)"

text \<open>The registry after the names of a list are registered without collision.\<close>

definition after_register :: "registry \<Rightarrow> string list \<Rightarrow> registry" where
  "after_register reg names =
     (\<lambda>n. if n \<in> set names
          then Some ((case reg n of None \<Rightarrow> 0 | Some k \<Rightarrow> k) + int (count_list names n))
          else reg n)"

text \<open>A registry in which \<open>x\<close> and the custom name \<open>x_1\<close> are both explicit keys.\<close>

definition colliding_registry :: registry where
  "colliding_registry = [''x'' \<mapsto> 1, ''x_1'' \<mapsto> 1]"

section \<open>Property store: \<open>_ComponentProperty\<close> of \<open>pyrunner/components/base_comp.py\<close>\<close>

text \<open>
  The keys of \<open>_ALLOWED_TYPES\<close>; the constructor raises \<open>NameError\<close> on any other
  property name.
\<close>

datatype prop_kind = Inputs | Outputs | Parameters

fun prop_name_str :: "prop_kind \<Rightarrow> string" where
  "prop_name_str Inputs = ''inputs''"
| "prop_name_str Outputs = ''outputs''"
| "prop_name_str Parameters = ''parameters''"

text \<open>A value stored in a property: an instance of \<open>BaseComponent\<close>, \<open>None\<close>, or an
  object of any other class.\<close>

datatype 'c pvalue = Component 'c | PyNone | Object int

text \<open>
  The exceptions of the class: \<open>ScopeViolation\<close> is the \<open>AttributeError\<close> of
  \<open>_block_outside_modification\<close>, \<open>ImmutableSchema\<close> the \<open>AttributeError\<close> of
  \<open>_non_erasable_order_dependent_method\<close>, \<open>PropKeyError\<close> a \<open>KeyError\<close>,
  \<open>PropTypeError\<close> the \<open>TypeError\<close> of \<open>_check_value_type\<close> and \<open>PropValueError\<close> the
  \<open>ValueError\<close> of \<open>int\<close>.
\<close>

datatype prop_error =
  ScopeViolation | ImmutableSchema | PropKeyError | PropTypeError | PropValueError

text \<open>The object: the dictionary it extends (\<open>entries\<close>) and its attributes.
  \<open>_key_gen_count\<close> exists on order-invariant properties only, and only they read it.\<close>

record 'c component_property =
  prop_name :: prop_kind
  within_method :: bool
  key_gen_count :: int
  is_order_invariant :: bool
  entries :: "string \<rightharpoonup> 'c pvalue"

text \<open>A method returns the object as it leaves it, with the exception it raised, if
  any: an exception does not undo what the method did before.\<close>

type_synonym 'c outcome = "prop_error option \<times> 'c component_property"

text \<open>\<open>_ComponentProperty.init\<close>.\<close>

definition init_invariant :: "prop_kind \<Rightarrow> 'c component_property" where
  "init_invariant kind =
     \<lparr>prop_name = kind, within_method = False, key_gen_count = 1,
      is_order_invariant = True, entries = Map.empty\<rparr>"

definition init_dependent :: "prop_kind \<Rightarrow> string list \<Rightarrow> 'c component_property" where
  "init_dependent kind all_keys =
     \<lparr>prop_name = kind, within_method = False, key_gen_count = 1,
      is_order_invariant = False, entries = map_of (map (\<lambda>k. (k, PyNone)) all_keys)\<rparr>"

text \<open>\<open>_check_value_type\<close>: \<open>isinstance(value, prop_types)\<close> with the types of
  \<open>_ALLOWED_TYPES\<close>.\<close>

fun check_value_type :: "prop_kind \<Rightarrow> 'c pvalue \<Rightarrow> bool" where
  "check_value_type Parameters v = True"
| "check_value_type kind (Object x) = False"
| "check_value_type kind v = True"

text \<open>\<open>self.prop_name + f"_{i}"\<close>.\<close>

definition generated_key :: "prop_kind \<Rightarrow> int \<Rightarrow> string" where
  "generated_key kind i = prop_name_str kind @ ''_'' @ str_int i"

text \<open>\<open>re.match(self.prop_name + "_[1-9][0-9]*", key)\<close>: \<open>re.match\<close> looks at the start
  of the key and not at its end.\<close>

definition matches_generated_key :: "prop_kind \<Rightarrow> string \<Rightarrow> bool" where
  "matches_generated_key kind key =
     (let p = prop_name_str kind @ ''_'' in
      take (length p) key = p \<and> length p < length key \<and>
      is_digit (key ! length p) \<and> key ! length p \<noteq> CHR ''0'')"

text \<open>\<open>key.rsplit('_', maxsplit=1)[1]\<close> on a key that has an underscore.\<close>

definition after_last_underscore :: "string \<Rightarrow> string" where
  "after_last_underscore key = rev (takeWhile (\<lambda>c. c \<noteq> CHR ''_'') (rev key))"

text \<open>The characters that \<open>int\<close> strips from both ends of a string: the ASCII blanks
  (tab to carriage return, and the space) and, of the other 8-bit characters, the two
  that Unicode counts as white space (next line and no-break space).  The separators
  \<open>0x1C\<close> to \<open>0x1F\<close> are not stripped by \<open>int\<close>.\<close>

definition is_space :: "char \<Rightarrow> bool" where
  "is_space c \<longleftrightarrow> (of_char c :: nat) \<in> {9, 10, 11, 12, 13, 32, 133, 160}"

definition strip :: "string \<Rightarrow> string" where
  "strip s = rev (dropWhile is_space (rev (dropWhile is_space s)))"

definition digits_value :: "string \<Rightarrow> int option" where
  "digits_value ds = (if ds \<noteq> [] \<and> list_all is_digit ds then Some (int_of_digits ds) else None)"

text \<open>\<open>int(s)\<close> on a string without underscore (the text after the last underscore of
  a key has none): optional blanks, an optional sign and decimal digits; \<open>None\<close> is
  \<open>ValueError\<close>.\<close>

definition py_int :: "string \<Rightarrow> int option" where
  "py_int s =
     (case strip s of
        [] \<Rightarrow> None
      | c # cs \<Rightarrow>
          if c = CHR ''-'' then map_option uminus (digits_value cs)
          else if c = CHR ''+'' then digits_value cs
          else digits_value (c # cs))"

text \<open>\<open>_check_for_key_generated_format\<close>; \<open>None\<close> when the key passes.\<close>

definition check_for_key_generated_format ::
  "'c component_property \<Rightarrow> string \<Rightarrow> prop_error option" where
  "check_for_key_generated_format st key =
     (if matches_generated_key (prop_name st) key then
        (case py_int (after_last_underscore key) of
           None \<Rightarrow> Some PropValueError
         | Some key_index \<Rightarrow>
             if key_index > key_gen_count st then Some PropKeyError else None)
      else Some PropKeyError)"

text \<open>\<open>_check_if_key_is_in_defined_variables\<close>.\<close>

definition check_if_key_is_in_defined_variables ::
  "'c component_property \<Rightarrow> string \<Rightarrow> prop_error option" where
  "check_if_key_is_in_defined_variables st key =
     (if entries st key = None then Some PropKeyError else None)"

text \<open>\<open>__setitem__\<close>, under its decorator \<open>_block_outside_modification\<close>.\<close>

definition setitem :: "'c component_property \<Rightarrow> string \<Rightarrow> 'c pvalue \<Rightarrow> 'c outcome" where
  "setitem st key v =
     (if within_method st then
        (if \<not> check_value_type (prop_name st) v then (Some PropTypeError, st)
         else
           (case (if is_order_invariant st then check_for_key_generated_format st key
                  else check_if_key_is_in_defined_variables st key) of
              Some e \<Rightarrow> (Some e, st)
            | None \<Rightarrow> (None, st\<lparr>entries := (entries st)(key \<mapsto> v)\<rparr>)))
      else (Some ScopeViolation, st))"

text \<open>\<open>_update\<close>: \<open>dict.update\<close> stores the pairs without calling \<open>__setitem__\<close>.\<close>

definition private_update ::
  "'c component_property \<Rightarrow> (string \<times> 'c pvalue) list \<Rightarrow> 'c outcome" where
  "private_update st kwargs =
     (if list_all (\<lambda>(key, v). entries st key \<noteq> None) kwargs
      then (None, st\<lparr>entries := fold (\<lambda>(key, v) m. m(key \<mapsto> v)) kwargs (entries st)\<rparr>)
      else (Some PropKeyError, st))"

text \<open>\<open>update\<close>; the argument \<open>update_dict\<close> is a dictionary or \<open>None\<close>.\<close>

definition update ::
  "'c component_property \<Rightarrow> (string \<times> 'c pvalue) list option \<Rightarrow>
     (string \<times> 'c pvalue) list \<Rightarrow> 'c outcome" where
  "update st update_dict kwargs =
     (case update_dict of
        None \<Rightarrow> private_update st kwargs
      | Some d \<Rightarrow>
          (case private_update st d of
             (Some e, st') \<Rightarrow> (Some e, st')
           | (None, st') \<Rightarrow> private_update st' kwargs))"

text \<open>The dictionary comprehension of \<open>_shift_values_to_the_left\<close>; \<open>self[k]\<close> raises
  \<open>KeyError\<close> (here \<open>None\<close>) on a missing key.\<close>

fun new_prop_entries ::
  "'c component_property \<Rightarrow> int list \<Rightarrow> (string \<times> 'c pvalue) list option" where
  "new_prop_entries st [] = Some []"
| "new_prop_entries st (i # is) =
     (case entries st (generated_key (prop_name st) (i + 1)) of
        None \<Rightarrow> None
      | Some v \<Rightarrow>
          (case new_prop_entries st is of
             None \<Rightarrow> None
           | Some rest \<Rightarrow> Some ((generated_key (prop_name st) i, v) # rest)))"

text \<open>\<open>_shift_values_to_the_left\<close>.\<close>

definition shift_values_to_the_left :: "'c component_property \<Rightarrow> string \<Rightarrow> 'c outcome" where
  "shift_values_to_the_left st key =
     (case py_int (after_last_underscore key) of
        None \<Rightarrow> (Some PropValueError, st)
      | Some key_index \<Rightarrow>
          if key_index < key_gen_count st then
            (case new_prop_entries st [key_index..key_gen_count st - 1] of
               None \<Rightarrow> (Some PropKeyError, st)
             | Some new_entries \<Rightarrow>
                 (case map_of new_entries key of
                    None \<Rightarrow> (Some PropKeyError, st)
                  | Some v \<Rightarrow>
                      (case setitem st key v of
                         (Some e, st1) \<Rightarrow> (Some e, st1)
                       | (None, st1) \<Rightarrow>
                           (case update st1 (Some new_entries) [] of
                              (Some e, st2) \<Rightarrow> (Some e, st2)
                            | (None, st2) \<Rightarrow>
                                (let last_key = generated_key (prop_name st2) (key_gen_count st2)
                                 in if entries st2 last_key = None
                                    then (Some PropKeyError, st2)
                                    else (None, st2\<lparr>entries := (entries st2)(last_key := None)\<rparr>))))))
          else (None, st))"

text \<open>\<open>__delitem__\<close>, under \<open>_block_outside_modification\<close> and
  \<open>_non_erasable_order_dependent_method\<close>.  The counter is decremented before
  \<open>dict.__delitem__\<close> looks for the key.\<close>

definition delitem :: "'c component_property \<Rightarrow> string \<Rightarrow> 'c outcome" where
  "delitem st key =
     (if within_method st then
        (if is_order_invariant st then
           (if matches_generated_key (prop_name st) key then
              (let st1 = st\<lparr>key_gen_count := key_gen_count st - 1\<rparr> in
               if entries st1 key = None then (Some PropKeyError, st1)
               else shift_values_to_the_left (st1\<lparr>entries := (entries st1)(key := None)\<rparr>) key)
            else (Some PropKeyError, st))
         else (Some ImmutableSchema, st))
      else (Some ScopeViolation, st))"

text \<open>The two loops of \<open>add\<close>.\<close>

fun add_values :: "'c component_property \<Rightarrow> 'c pvalue list \<Rightarrow> 'c outcome" where
  "add_values st [] = (None, st)"
| "add_values st (v # vs) =
     (case setitem st (generated_key (prop_name st) (key_gen_count st)) v of
        (Some e, st') \<Rightarrow> (Some e, st')
      | (None, st') \<Rightarrow> add_values (st'\<lparr>key_gen_count := key_gen_count st' + 1\<rparr>) vs)"

fun add_named :: "'c component_property \<Rightarrow> (string \<times> 'c pvalue) list \<Rightarrow> 'c outcome" where
  "add_named st [] = (None, st)"
| "add_named st ((key, v) # kwargs) =
     (case setitem st key v of
        (Some e, st') \<Rightarrow> (Some e, st')
      | (None, st') \<Rightarrow> add_named st' kwargs)"

text \<open>\<open>add(*args, **kwargs)\<close>: \<open>_within_method\<close> is set before the loop and reset after
  it, by plain assignments.\<close>

definition add ::
  "'c component_property \<Rightarrow> 'c pvalue list \<Rightarrow> (string \<times> 'c pvalue) list \<Rightarrow> 'c outcome" where
  "add st args kwargs =
     (let st0 = st\<lparr>within_method := True\<rparr> in
      case (if is_order_invariant st0 then add_values st0 args else add_named st0 kwargs) of
        (Some e, st') \<Rightarrow> (Some e, st')
      | (None, st') \<Rightarrow> (None, st'\<lparr>within_method := False\<rparr>))"

text \<open>\<open>pop(key)\<close>; \<open>_detect_invalid_key_entry\<close> raises a \<open>KeyError\<close> for a \<open>KeyError\<close>.\<close>

definition pop :: "'c component_property \<Rightarrow> string \<Rightarrow> 'c outcome" where
  "pop st key =
     (let st0 = st\<lparr>within_method := True\<rparr> in
      case entries st0 key of
        None \<Rightarrow> (Some PropKeyError, st0)
      | Some v \<Rightarrow>
          (case delitem st0 key of
             (Some e, st') \<Rightarrow> (Some e, st')
           | (None, st') \<Rightarrow> (None, st'\<lparr>within_method := False\<rparr>)))"

text \<open>A sequence of calls of \<open>add\<close> and \<open>pop\<close> on one object; the caller goes on after an
  exception.\<close>

datatype 'c prop_op = Add "'c pvalue list" | Pop string

fun apply_op :: "'c component_property \<Rightarrow> 'c prop_op \<Rightarrow> 'c component_property" where
  "apply_op st (Add args) = snd (add st args [])"
| "apply_op st (Pop key) = snd (pop st key)"

definition run_ops :: "'c component_property \<Rightarrow> 'c prop_op list \<Rightarrow> 'c component_property" where
  "run_ops st ops = foldl apply_op st ops"

text \<open>The keys are the generated keys of the indices from 1 to the counter,
  excluded.\<close>

definition contiguous :: "'c component_property \<Rightarrow> bool" where
  "contiguous st \<longleftrightarrow>
     1 \<le> key_gen_count st \<and>
     (\<forall>key. entries st key \<noteq> None \<longleftrightarrow>
        (\<exists>i. 1 \<le> i \<and> i < key_gen_count st \<and> key = generated_key (prop_name st) i))"

text \<open>Every stored value passes \<open>_check_value_type\<close>.\<close>

definition well_typed :: "'c component_property \<Rightarrow> bool" where
  "well_typed st \<longleftrightarrow> (\<forall>key v. entries st key = Some v \<longrightarrow> check_value_type (prop_name st) v)"

text \<open>The invariant of an order-invariant property under \<open>add\<close> and \<open>pop\<close>.\<close>

definition prop_inv :: "'c component_property \<Rightarrow> bool" where
  "prop_inv st \<longleftrightarrow> is_order_invariant st \<and> contiguous st \<and> well_typed st"

text \<open>What a test observes: the counter, the flag and the values under the listed
  keys.\<close>

definition observe_property ::
  "string list \<Rightarrow> 'c component_property \<Rightarrow> int \<times> bool \<times> 'c pvalue option list" where
  "observe_property keys st = (key_gen_count st, within_method st, map (entries st) keys)"

section \<open>Properties of the order resolver\<close>

lemma progresses_refl: "progresses st st"
  by (simp add: progresses_def)

lemma edge_count_mono:
  assumes "dom (sys_info st') = dom (sys_info st)"
    and "\<forall>c. length (inputs_of st' c) \<le> length (inputs_of st c)"
  shows "edge_count st' \<le> edge_count st"
  unfolding edge_count_def using assms by (simp add: sum_mono)

lemma progresses_edge_count: "progresses st st' \<Longrightarrow> edge_count st' \<le> edge_count st"
  by (simp add: progresses_def edge_count_mono)

lemma progresses_trans:
  assumes "progresses st st'" and "progresses st' st''"
  shows "progresses st st''"
proof -
  have e1: "edge_count st' \<le> edge_count st" and e2: "edge_count st'' \<le> edge_count st'"
    using assms by (simp_all add: progresses_edge_count)
  have "\<forall>c. length (inputs_of st'' c) \<le> length (inputs_of st c)"
    using assms unfolding progresses_def by (meson order_trans)
  moreover have "edge_count st'' < edge_count st \<or> card (pending st'') \<le> card (pending st)"
    using assms e1 e2 unfolding progresses_def by linarith
  ultimately show ?thesis using assms unfolding progresses_def by simp
qed

lemma finite_pending: "finite (dom (sys_info st)) \<Longrightarrow> finite (pending st)"
  by (simp add: pending_def)

lemma sever_system_loop_Inr:
  assumes "sever_system_loop df st c = Inr st'"
  obtains a b l where "sys_info st a = Some l" and "b \<in> set l"
    and "st' = st\<lparr>sys_info := (sys_info st)(a \<mapsto> remove1 b l), sys_trail := []\<rparr>"
    and "get_loop_components df st c = Inr (a, b)"
  using assms unfolding sever_system_loop_def
  by (auto split: sum.splits option.splits if_splits prod.splits)

lemma edge_count_sever:
  assumes fin: "finite (dom (sys_info st))" and a: "sys_info st a = Some l" and b: "b \<in> set l"
  shows "edge_count (st\<lparr>sys_info := (sys_info st)(a \<mapsto> remove1 b l), sys_trail := []\<rparr>)
           < edge_count st"
proof -
  let ?st' = "st\<lparr>sys_info := (sys_info st)(a \<mapsto> remove1 b l), sys_trail := []\<rparr>"
  have d: "dom (sys_info ?st') = dom (sys_info st)" using a by auto
  have ain: "a \<in> dom (sys_info st)" using a by auto
  have "length (inputs_of ?st' a) < length (inputs_of st a)"
    using a b length_pos_if_in_set[of b l] by (simp add: inputs_of_def length_remove1)
  moreover have "\<forall>c\<in>dom (sys_info st). length (inputs_of ?st' c) \<le> length (inputs_of st c)"
    using a by (auto simp: inputs_of_def length_remove1)
  ultimately show ?thesis
    unfolding edge_count_def d using fin ain
    by (intro sum_strict_mono_ex1) auto
qed

lemma sever_progresses:
  assumes fin: "finite (dom (sys_info st))" and s: "sever_system_loop df st c = Inr st'"
  shows "progresses st st' \<and> edge_count st' < edge_count st \<and> sys_trail st' = []"
proof -
  from s obtain a b l where a: "sys_info st a = Some l" and b: "b \<in> set l"
    and st': "st' = st\<lparr>sys_info := (sys_info st)(a \<mapsto> remove1 b l), sys_trail := []\<rparr>"
    by (rule sever_system_loop_Inr)
  have "edge_count st' < edge_count st" unfolding st' by (rule edge_count_sever[OF fin a b])
  moreover have "dom (sys_info st') = dom (sys_info st)" using a st' by auto
  moreover have "\<forall>c. length (inputs_of st' c) \<le> length (inputs_of st c)"
    using a st' by (auto simp: inputs_of_def length_remove1)
  ultimately show ?thesis using st' by (simp add: progresses_def)
qed

lemma record_in_trail_pending:
  assumes fin: "finite (dom (sys_info st))" and "c \<in> dom (sys_info st)"
    and "is_not_mapped st c" and "c \<notin> set (sys_trail st)"
  shows "card (pending (record_in_trail st c)) < card (pending st)"
proof -
  have "pending (record_in_trail st c) \<subset> pending st"
    using assms by (auto simp: pending_def record_in_trail_def)
  then show ?thesis using finite_pending[OF fin] by (simp add: psubset_card_mono)
qed

lemma record_in_trail_simps [simp]:
  "sys_info (record_in_trail st c) = sys_info st"
  "is_not_mapped (record_in_trail st c) = is_not_mapped st"
  "ordered_comps (record_in_trail st c) = ordered_comps st"
  "sys_trail (record_in_trail st c) = sys_trail st @ [c]"
  "inputs_of (record_in_trail st c) = inputs_of st"
  "edge_count (record_in_trail st c) = edge_count st"
  by (auto simp: record_in_trail_def inputs_of_def edge_count_def)

lemma record_in_trail_progresses:
  assumes "finite (dom (sys_info st))"
  shows "progresses st (record_in_trail st c)"
proof -
  have "pending (record_in_trail st c) \<subseteq> pending st"
    by (auto simp: pending_def)
  then have "card (pending (record_in_trail st c)) \<le> card (pending st)"
    using finite_pending[OF assms] by (simp add: card_mono)
  then show ?thesis by (simp add: progresses_def)
qed

lemma finish_component_progresses:
  assumes "finite (dom (sys_info st))"
  shows "progresses st (finish_component st c)"
proof -
  have "pending (finish_component st c) \<subseteq> pending st"
    by (auto simp: pending_def finish_component_def dest: notin_set_remove1)
  then have "card (pending (finish_component st c)) \<le> card (pending st)"
    using finite_pending[OF assms] by (simp add: card_mono)
  moreover have "inputs_of (finish_component st c) = inputs_of st"
    by (auto simp: finish_component_def inputs_of_def)
  moreover have "sys_info (finish_component st c) = sys_info st"
    by (auto simp: finish_component_def)
  ultimately show ?thesis by (simp add: progresses_def)
qed

lemma wf_loop_order: "wf loop_order"
  unfolding loop_order_def by (intro wf_inv_image wf_lex_prod wf_less_than)

lemma loop_order_iff:
  "((st', c', i'), (st, c, i)) \<in> loop_order \<longleftrightarrow>
     edge_count st' < edge_count st \<or>
     (edge_count st' = edge_count st \<and>
       (card (pending st') < card (pending st) \<or>
        (card (pending st') = card (pending st) \<and>
         length (inputs_of st' c') - i' < length (inputs_of st c) - i)))"
  by (auto simp: loop_order_def loop_measure_def)

lemma check_feedback_cases:
  assumes "check_feedback df st ic = Inr st1" and "finite (dom (sys_info st))"
  shows "(ic \<notin> set (sys_trail st) \<and> st1 = st) \<or>
         (ic \<in> set (sys_trail st) \<and> sever_system_loop df st ic = Inr st1 \<and>
          progresses st st1 \<and> edge_count st1 < edge_count st \<and> sys_trail st1 = [])"
  using assms sever_progresses[of st df ic st1]
  by (auto simp: check_feedback_def split: if_splits)

lemma progresses_dom: "progresses st st' \<Longrightarrow> dom (sys_info st') = dom (sys_info st)"
  by (simp add: progresses_def)

lemma progresses_rank:
  "progresses st st' \<Longrightarrow>
     edge_count st' < edge_count st \<or>
     (edge_count st' = edge_count st \<and> card (pending st') \<le> card (pending st))"
  using progresses_edge_count[of st st'] by (auto simp: progresses_def)

lemma progresses_length:
  "progresses st st' \<Longrightarrow> length (inputs_of st' c) \<le> length (inputs_of st c)"
  by (simp add: progresses_def)

lemma inputs_loop_terminates_aux:
  "finite (dom (sys_info (fst x))) \<Longrightarrow>
     \<exists>r. inputs_loop df (fst (snd x)) (snd (snd x)) (fst x) = Some r \<and>
         (\<forall>st'. r = Inr st' \<longrightarrow> progresses (fst x) st')"
proof (induction x rule: wf_induct_rule[OF wf_loop_order])
  case (1 x)
  obtain st c i where x: "x = (st, c, i)" by (cases x) auto
  have fin: "finite (dom (sys_info st))" using 1(2) x by simp
  have IH: "\<And>st' c' i'. ((st', c', i'), (st, c, i)) \<in> loop_order \<Longrightarrow>
      finite (dom (sys_info st')) \<Longrightarrow>
      \<exists>r. inputs_loop df c' i' st' = Some r \<and> (\<forall>st''. r = Inr st'' \<longrightarrow> progresses st' st'')"
    using 1(1) x by fastforce
  show ?case unfolding x fst_conv snd_conv
  proof (cases "sys_info st c")
    case None
    then show "\<exists>r. inputs_loop df c i st = Some r \<and> (\<forall>st'. r = Inr st' \<longrightarrow> progresses st st')"
      by (subst inputs_loop.simps) simp
  next
    case (Some L)
    have io: "inputs_of st c = L" using Some by (simp add: inputs_of_def)
    show "\<exists>r. inputs_loop df c i st = Some r \<and> (\<forall>st'. r = Inr st' \<longrightarrow> progresses st st')"
    proof (cases "i < length L")
      case False
      then show ?thesis using Some finish_component_progresses[OF fin]
        by (subst inputs_loop.simps) simp
    next
      case True
      show ?thesis
      proof (cases "check_feedback df st (L ! i)")
        case (Inl e)
        then show ?thesis using Some True by (subst inputs_loop.simps) simp
      next
        case (Inr st1)
        from check_feedback_cases[OF Inr fin]
        have p1: "progresses st st1"
          and r1: "edge_count st1 < edge_count st \<or> st1 = st"
          and t1: "L ! i \<notin> set (sys_trail st1)"
          by (auto simp: progresses_refl)
        have fin1: "finite (dom (sys_info st1))" using p1 fin by (simp add: progresses_dom)
        show ?thesis
        proof (cases "is_not_mapped st1 (L ! i)")
          case False
          have "((st1, c, i + 1), (st, c, i)) \<in> loop_order"
            using r1 True io by (auto simp: loop_order_iff)
          from IH[OF this fin1] obtain r where
            r: "inputs_loop df c (i + 1) st1 = Some r" "\<forall>st''. r = Inr st'' \<longrightarrow> progresses st1 st''"
            by blast
          have "inputs_loop df c i st = Some r"
            using Some True Inr False r(1) by (subst inputs_loop.simps) simp
          then show ?thesis using r(2) p1 progresses_trans by blast
        next
          case nm: True
          let ?st1' = "record_in_trail st1 (L ! i)"
          show ?thesis
          proof (cases "sys_info st1 (L ! i)")
            case None
            then have "inputs_loop df (L ! i) 0 ?st1' = Some (Inl KeyError)"
              by (subst inputs_loop.simps) simp
            then have "inputs_loop df c i st = Some (Inl KeyError)"
              using Some True Inr nm by (subst inputs_loop.simps) simp
            then show ?thesis by simp
          next
            case Some2: (Some L2)
            then have indom: "L ! i \<in> dom (sys_info st1)" by auto
            have less: "card (pending ?st1') < card (pending st1)"
              by (rule record_in_trail_pending[OF fin1 indom nm t1])
            have rk1: "edge_count st1 < edge_count st \<or>
               (edge_count st1 = edge_count st \<and> card (pending st1) \<le> card (pending st))"
              using progresses_rank[OF p1] .
            have "((?st1', L ! i, 0), (st, c, i)) \<in> loop_order"
              using rk1 less by (auto simp: loop_order_iff)
            from IH[OF this] fin1 obtain r where
              r: "inputs_loop df (L ! i) 0 ?st1' = Some r"
                "\<forall>st''. r = Inr st'' \<longrightarrow> progresses ?st1' st''"
              by auto
            show ?thesis
            proof (cases r)
              case (Inl e)
              then have "inputs_loop df c i st = Some (Inl e)"
                using Some True Inr nm r(1) by (subst inputs_loop.simps) simp
              then show ?thesis by simp
            next
              case r2: (Inr st2)
              have p2: "progresses ?st1' st2" using r(2) r2 by simp
              have fin2: "finite (dom (sys_info st2))"
                using progresses_dom[OF p2] fin1 by simp
              have rk2: "edge_count st2 < edge_count ?st1' \<or>
                 (edge_count st2 = edge_count ?st1' \<and> card (pending st2) \<le> card (pending ?st1'))"
                using progresses_rank[OF p2] .
              have "((st2, c, i + 1), (st, c, i)) \<in> loop_order"
                using rk1 rk2 less by (auto simp: loop_order_iff)
              from IH[OF this fin2] obtain r' where
                r': "inputs_loop df c (i + 1) st2 = Some r'"
                  "\<forall>st''. r' = Inr st'' \<longrightarrow> progresses st2 st''"
                by blast
              have "inputs_loop df c i st = Some r'"
                using Some True Inr nm r(1) r2 r'(1) by (subst inputs_loop.simps) simp
              moreover have "progresses st st2"
                using p1 record_in_trail_progresses[OF fin1, of "L ! i"] p2 progresses_trans
                by blast
              ultimately show ?thesis using r'(2) progresses_trans by blast
            qed
          qed
        qed
      qed
    qed
  qed
qed

lemma inputs_loop_terminates:
  assumes "finite (dom (sys_info st))"
  obtains r where "inputs_loop df c i st = Some r" and "\<And>st'. r = Inr st' \<Longrightarrow> progresses st st'"
  using inputs_loop_terminates_aux[of "(st, c, i)" df] assms by auto

lemma inputs_loop_induct_aux:
  assumes step: "\<And>st c i. finite (dom (sys_info st)) \<Longrightarrow>
       (\<And>L st1. sys_info st c = Some L \<Longrightarrow> i < length L \<Longrightarrow>
           check_feedback df st (L ! i) = Inr st1 \<Longrightarrow> is_not_mapped st1 (L ! i) \<Longrightarrow>
           sys_info st1 (L ! i) \<noteq> None \<Longrightarrow>
           P (record_in_trail st1 (L ! i)) (L ! i) 0) \<Longrightarrow>
       (\<And>L st1 st2. sys_info st c = Some L \<Longrightarrow> i < length L \<Longrightarrow>
           check_feedback df st (L ! i) = Inr st1 \<Longrightarrow> is_not_mapped st1 (L ! i) \<Longrightarrow>
           inputs_loop df (L ! i) 0 (record_in_trail st1 (L ! i)) = Some (Inr st2) \<Longrightarrow>
           P st2 c (i + 1)) \<Longrightarrow>
       (\<And>L st1. sys_info st c = Some L \<Longrightarrow> i < length L \<Longrightarrow>
           check_feedback df st (L ! i) = Inr st1 \<Longrightarrow> \<not> is_not_mapped st1 (L ! i) \<Longrightarrow>
           P st1 c (i + 1)) \<Longrightarrow>
       P st c i"
  shows "finite (dom (sys_info (fst x))) \<Longrightarrow> P (fst x) (fst (snd x)) (snd (snd x))"
proof (induction x rule: wf_induct_rule[OF wf_loop_order])
  case (1 x)
  obtain st c i where x: "x = (st, c, i)" by (cases x) auto
  have fin: "finite (dom (sys_info st))" using 1(2) x by simp
  have IH: "\<And>st' c' i'. ((st', c', i'), (st, c, i)) \<in> loop_order \<Longrightarrow>
      finite (dom (sys_info st')) \<Longrightarrow> P st' c' i'"
    using 1(1) x by fastforce
  have "P st c i"
  proof (rule step[OF fin])
    fix L st1
    assume a: "sys_info st c = Some L" "i < length L"
      "check_feedback df st (L ! i) = Inr st1" "is_not_mapped st1 (L ! i)"
      "sys_info st1 (L ! i) \<noteq> None"
    from check_feedback_cases[OF a(3) fin]
    have p1: "progresses st st1" and t1: "L ! i \<notin> set (sys_trail st1)"
      by (auto simp: progresses_refl)
    have fin1: "finite (dom (sys_info st1))" using p1 fin by (simp add: progresses_dom)
    have indom: "L ! i \<in> dom (sys_info st1)" using a(5) by auto
    have less: "card (pending (record_in_trail st1 (L ! i))) < card (pending st1)"
      by (rule record_in_trail_pending[OF fin1 indom a(4) t1])
    have "((record_in_trail st1 (L ! i), L ! i, 0), (st, c, i)) \<in> loop_order"
      using progresses_rank[OF p1] less by (auto simp: loop_order_iff)
    from IH[OF this] fin1 show "P (record_in_trail st1 (L ! i)) (L ! i) 0" by simp
  next
    fix L st1 st2
    assume a: "sys_info st c = Some L" "i < length L"
      "check_feedback df st (L ! i) = Inr st1" "is_not_mapped st1 (L ! i)"
      "inputs_loop df (L ! i) 0 (record_in_trail st1 (L ! i)) = Some (Inr st2)"
    from check_feedback_cases[OF a(3) fin]
    have p1: "progresses st st1" and t1: "L ! i \<notin> set (sys_trail st1)"
      by (auto simp: progresses_refl)
    have fin1: "finite (dom (sys_info st1))" using p1 fin by (simp add: progresses_dom)
    have "sys_info st1 (L ! i) \<noteq> None"
    proof
      assume "sys_info st1 (L ! i) = None"
      then have "inputs_loop df (L ! i) 0 (record_in_trail st1 (L ! i)) = Some (Inl KeyError)"
        by (subst inputs_loop.simps) simp
      with a(5) show False by simp
    qed
    then have indom: "L ! i \<in> dom (sys_info st1)" by auto
    have less: "card (pending (record_in_trail st1 (L ! i))) < card (pending st1)"
      by (rule record_in_trail_pending[OF fin1 indom a(4) t1])
    have fin1': "finite (dom (sys_info (record_in_trail st1 (L ! i))))" using fin1 by simp
    have "\<exists>r. inputs_loop df (L ! i) 0 (record_in_trail st1 (L ! i)) = Some r \<and>
         (\<forall>st'. r = Inr st' \<longrightarrow> progresses (record_in_trail st1 (L ! i)) st')"
      using inputs_loop_terminates_aux[of "(record_in_trail st1 (L ! i), L ! i, 0)" df] fin1'
      by simp
    then have p2: "progresses (record_in_trail st1 (L ! i)) st2" using a(5) by auto
    have fin2: "finite (dom (sys_info st2))" using progresses_dom[OF p2] fin1 by simp
    have "((st2, c, i + 1), (st, c, i)) \<in> loop_order"
      using progresses_rank[OF p1] progresses_rank[OF p2] less by (auto simp: loop_order_iff)
    from IH[OF this fin2] show "P st2 c (i + 1)" .
  next
    fix L st1
    assume a: "sys_info st c = Some L" "i < length L"
      "check_feedback df st (L ! i) = Inr st1" "\<not> is_not_mapped st1 (L ! i)"
    from check_feedback_cases[OF a(3) fin]
    have p1: "progresses st st1" and r1: "edge_count st1 < edge_count st \<or> st1 = st"
      by (auto simp: progresses_refl)
    have fin1: "finite (dom (sys_info st1))" using p1 fin by (simp add: progresses_dom)
    have io: "inputs_of st c = L" using a(1) by (simp add: inputs_of_def)
    have "((st1, c, i + 1), (st, c, i)) \<in> loop_order"
      using r1 a(2) io by (auto simp: loop_order_iff)
    from IH[OF this fin1] show "P st1 c (i + 1)" .
  qed
  then show ?case by (simp add: x)
qed

lemma inputs_loop_induct [consumes 1, case_names step]:
  assumes "finite (dom (sys_info st))"
    and "\<And>st c i. finite (dom (sys_info st)) \<Longrightarrow>
       (\<And>L st1. sys_info st c = Some L \<Longrightarrow> i < length L \<Longrightarrow>
           check_feedback df st (L ! i) = Inr st1 \<Longrightarrow> is_not_mapped st1 (L ! i) \<Longrightarrow>
           sys_info st1 (L ! i) \<noteq> None \<Longrightarrow>
           P (record_in_trail st1 (L ! i)) (L ! i) 0) \<Longrightarrow>
       (\<And>L st1 st2. sys_info st c = Some L \<Longrightarrow> i < length L \<Longrightarrow>
           check_feedback df st (L ! i) = Inr st1 \<Longrightarrow> is_not_mapped st1 (L ! i) \<Longrightarrow>
           inputs_loop df (L ! i) 0 (record_in_trail st1 (L ! i)) = Some (Inr st2) \<Longrightarrow>
           P st2 c (i + 1)) \<Longrightarrow>
       (\<And>L st1. sys_info st c = Some L \<Longrightarrow> i < length L \<Longrightarrow>
           check_feedback df st (L ! i) = Inr st1 \<Longrightarrow> \<not> is_not_mapped st1 (L ! i) \<Longrightarrow>
           P st1 c (i + 1)) \<Longrightarrow>
       P st c i"
  shows "P st c i"
  using inputs_loop_induct_aux[of df P "(st, c, i)"] assms by simp

lemma evolves_refl: "evolves df st st"
  by (simp add: evolves_def)

lemma evolves_trans:
  assumes "evolves df st st'" and "evolves df st' st''"
  shows "evolves df st st''"
  unfolding evolves_def
proof (intro conjI allI impI)
  fix c assume "mapped st c" then show "mapped st'' c" using assms by (simp add: evolves_def)
next
  show "dom (sys_info st'') = dom (sys_info st)" using assms by (simp add: evolves_def)
next
  fix c show "set (inputs_of st'' c) \<subseteq> set (inputs_of st c)"
    using assms unfolding evolves_def by blast
next
  fix c d assume d: "d \<in> set (inputs_of st c)" "d \<notin> set (inputs_of st'' c)"
  show "\<not> df d" using assms d unfolding evolves_def by blast
  show "mapped st'' d \<or> d \<in> set (sys_trail st)"
  proof (cases "d \<in> set (inputs_of st' c)")
    case True
    then have "mapped st'' d \<or> d \<in> set (sys_trail st')" using assms(2) d(2) unfolding evolves_def by blast
    then show ?thesis using assms(1) unfolding evolves_def by blast
  next
    case False
    then have "mapped st' d \<or> d \<in> set (sys_trail st)" using assms(1) d(1) unfolding evolves_def by blast
    then show ?thesis using assms(2) unfolding evolves_def by blast
  qed
next
  show "set (sys_trail st'') \<subseteq> set (sys_trail st)" using assms unfolding evolves_def by blast
qed

lemma evolves_df_edges: "evolves df st st' \<Longrightarrow> df_edges df st' = df_edges df st"
  unfolding evolves_def df_edges_def by blast

lemma evolves_algebraic_loop:
  "evolves df st st' \<Longrightarrow> algebraic_loop df st' = algebraic_loop df st"
  by (simp add: algebraic_loop_def evolves_df_edges)

lemma evolves_edges: "evolves df st st' \<Longrightarrow> edges st' \<subseteq> edges st"
  unfolding evolves_def edges_def by blast

lemma evolves_kept_edges: "evolves df st st' \<Longrightarrow> kept_edges df st \<subseteq> edges st'"
  unfolding evolves_def edges_def kept_edges_def by blast

lemma evolves_mapped: "evolves df st st' \<Longrightarrow> mapped st c \<Longrightarrow> mapped st' c"
  by (simp add: evolves_def)

lemma evolves_dom: "evolves df st st' \<Longrightarrow> dom (sys_info st') = dom (sys_info st)"
  by (simp add: evolves_def)

lemma mapped_edge:
  assumes "org_inv st" and "mapped st x" and "(x, y) \<in> edges st"
  shows "mapped st y"
proof -
  from assms have "x \<in> set (ordered_comps st)" by (simp add: org_inv_def)
  then obtain j where j: "j < length (ordered_comps st)" "ordered_comps st ! j = x"
    by (auto simp: in_set_conv_nth)
  have "set (inputs_of st x) \<subseteq> set (take j (ordered_comps st))"
    using assms(1) j unfolding org_inv_def inputs_precede_def by blast
  then have "y \<in> set (take j (ordered_comps st))" using assms(3) by (auto simp: edges_def)
  then have "y \<in> set (ordered_comps st)" by (rule in_set_takeD)
  then show ?thesis using assms(1) by (simp add: org_inv_def)
qed

lemma mapped_reachable:
  assumes "org_inv st" and "(x, y) \<in> (edges st)\<^sup>*" and "mapped st x"
  shows "mapped st y"
  using assms(2,3) by (induction rule: rtrancl_induct) (auto intro: mapped_edge[OF assms(1)])

lemma list_index_Some:
  "list_index xs x = Some n \<Longrightarrow> n < length xs \<and> xs ! n = x"
  by (induction xs arbitrary: n) (auto split: if_splits)

lemma list_index_in_set: "x \<in> set xs \<Longrightarrow> \<exists>n. list_index xs x = Some n"
  by (induction xs) auto

lemma find_upt_None: "find P [0..<m] = None \<longleftrightarrow> (\<forall>k<m. \<not> P k)"
  by (auto simp: find_None_iff)

lemma find_upt_Some:
  "find P [0..<m] = Some j \<Longrightarrow> j < m \<and> P j \<and> (\<forall>k<j. \<not> P k)"
  by (auto simp: find_Some_iff)

lemma evolves_record_in_trail:
  assumes "evolves df (record_in_trail st c) st'" and "mapped st' c"
    and "sys_trail st' = [] \<or> sys_trail st' = sys_trail st"
  shows "evolves df st st'"
  using assms unfolding evolves_def by (auto simp: mapped_def)

lemma org_inv_sys_info:
  assumes "org_inv st" and "a \<in> set (sys_trail st)"
  shows "sys_info st a = Some (inputs_of st a)"
proof -
  from assms have "a \<in> dom (sys_info st)" by (auto simp: org_inv_def)
  then show ?thesis by (auto simp: inputs_of_def)
qed

lemma closed_info_inputs:
  assumes "closed_info (sys_info st)" and "d \<in> set (inputs_of st c)"
  shows "d \<in> dom (sys_info st)"
proof (cases "sys_info st c")
  case None
  then show ?thesis using assms(2) by (simp add: inputs_of_def)
next
  case (Some l)
  then have "set l \<subseteq> dom (sys_info st)" using assms(1) unfolding closed_info_def by blast
  then show ?thesis using assms(2) Some by (auto simp: inputs_of_def)
qed

lemma org_inv_inputs_dom:
  "org_inv st \<Longrightarrow> d \<in> set (inputs_of st c) \<Longrightarrow> d \<in> dom (sys_info st)"
  using closed_info_inputs[of st d c] by (simp add: org_inv_def)

lemma cycle_from_segment:
  assumes m: "0 < m"
    and step: "\<And>k. Suc k < m \<Longrightarrow> (f k, f (Suc k)) \<in> R"
    and wrap: "(f (m - 1), f 0) \<in> R"
  shows "(f 0, f 0) \<in> R\<^sup>+"
proof -
  have "k < m \<Longrightarrow> (f 0, f k) \<in> R\<^sup>*" for k
  proof (induction k)
    case 0 show ?case by simp
  next
    case (Suc k)
    then have "(f 0, f k) \<in> R\<^sup>*" by simp
    moreover have "(f k, f (Suc k)) \<in> R" using step Suc.prems by simp
    ultimately show ?case by (rule rtrancl_into_rtrancl)
  qed
  then have "(f 0, f (m - 1)) \<in> R\<^sup>*" using m by simp
  then show ?thesis using wrap by (rule rtrancl_into_trancl1)
qed

lemma chain_from_segment:
  assumes step: "\<And>k. k < j \<Longrightarrow> (f k, f (Suc k)) \<in> R"
  shows "(f 0, f j) \<in> R\<^sup>*"
  using assms
proof (induction j)
  case 0 show ?case by simp
next
  case (Suc j)
  then have "(f 0, f j) \<in> R\<^sup>*" by simp
  moreover have "(f j, f (Suc j)) \<in> R" using Suc.prems by simp
  ultimately show ?case by (rule rtrancl_into_rtrancl)
qed

lemma sever_state_inv:
  assumes inv: "org_inv st" and a: "sys_info st a = Some l"
  shows "org_inv (st\<lparr>sys_info := (sys_info st)(a \<mapsto> remove1 b l), sys_trail := []\<rparr>)"
proof -
  let ?st1 = "st\<lparr>sys_info := (sys_info st)(a \<mapsto> remove1 b l), sys_trail := []\<rparr>"
  have sub: "set (inputs_of ?st1 x) \<subseteq> set (inputs_of st x)" for x
    using a set_remove1_subset[of b l] by (auto simp: inputs_of_def)
  have d: "dom (sys_info ?st1) = dom (sys_info st)" using a by auto
  have "closed_info (sys_info ?st1)"
    unfolding closed_info_def
  proof (intro allI impI)
    fix c l' assume "sys_info ?st1 c = Some l'"
    then have "set l' \<subseteq> set (inputs_of st c)" using sub[of c] by (simp add: inputs_of_def)
    moreover have "set (inputs_of st c) \<subseteq> dom (sys_info st)"
      using org_inv_inputs_dom[OF inv] by blast
    ultimately show "set l' \<subseteq> dom (sys_info ?st1)" using d by simp
  qed
  moreover have "inputs_precede ?st1"
    using inv sub unfolding org_inv_def inputs_precede_def by (simp; blast)
  moreover have "trail_is_path ?st1" by (simp add: trail_is_path_def)
  ultimately show ?thesis using inv by (simp add: org_inv_def mapped_def)
qed

lemma sever_state_evolves:
  assumes a: "sys_info st a = Some l" and b: "\<not> df b" "b \<in> set (sys_trail st)"
  shows "evolves df st (st\<lparr>sys_info := (sys_info st)(a \<mapsto> remove1 b l), sys_trail := []\<rparr>)"
proof -
  let ?st1 = "st\<lparr>sys_info := (sys_info st)(a \<mapsto> remove1 b l), sys_trail := []\<rparr>"
  have sub: "set (inputs_of ?st1 x) \<subseteq> set (inputs_of st x)" for x
    using a set_remove1_subset[of b l] by (auto simp: inputs_of_def)
  have rem: "d \<in> set (inputs_of st x) \<Longrightarrow> d \<notin> set (inputs_of ?st1 x) \<Longrightarrow> d = b" for d x
    using a in_set_remove1[of d b l] by (cases "x = a") (auto simp: inputs_of_def)
  have d: "dom (sys_info ?st1) = dom (sys_info st)" using a by auto
  show ?thesis unfolding evolves_def using sub rem d b by (auto simp: mapped_def)
qed

lemma sever_spec:
  assumes inv: "org_inv st" and ic: "ic \<in> set (sys_trail st)"
    and lst: "last (sys_trail st) = c" and edge: "ic \<in> set (inputs_of st c)"
  shows "case sever_system_loop df st ic of
           Inl e \<Rightarrow> e = AlgebraicLoopError \<and> algebraic_loop df st
         | Inr st1 \<Rightarrow> org_inv st1 \<and> evolves df st st1 \<and> sys_trail st1 = [] \<and>
               is_not_mapped st1 = is_not_mapped st \<and>
               (\<exists>a. (ic, a) \<in> (kept_edges df st1)\<^sup>* \<and>
                    (\<forall>x. x \<noteq> a \<longrightarrow> inputs_of st1 x = inputs_of st x))"
proof -
  define T where "T = sys_trail st"
  obtain n where n: "list_index T ic = Some n" using list_index_in_set ic T_def by metis
  then have nT: "n < length T" "T ! n = ic" using list_index_Some by metis+
  define seg where "seg = drop n T"
  define m where "m = length seg"
  have m_eq: "m = length T - n" and m_pos: "0 < m" using nT by (simp_all add: m_def seg_def)
  have seg_nth: "seg ! k = T ! (n + k)" if "k < m" for k
    using that m_eq by (simp add: seg_def)
  define nxt where "nxt k = get_component_input_in_loop k seg" for k
  have nxt_eq: "nxt k = (if Suc k < m then seg ! Suc k else seg ! 0)" for k
    by (simp add: nxt_def get_component_input_in_loop_def m_def)
  have path: "Suc k < length T \<Longrightarrow> T ! Suc k \<in> set (inputs_of st (T ! k))" for k
    using inv unfolding org_inv_def trail_is_path_def T_def by blast
  have seg0: "seg ! 0 = ic" using seg_nth[of 0] m_pos nT by simp
  have seg_last: "seg ! (m - 1) = c"
  proof -
    have "seg ! (m - 1) = T ! (length T - 1)" using seg_nth[of "m - 1"] m_eq m_pos nT by simp
    also have "\<dots> = last T" using nT by (metis last_conv_nth length_0_conv not_less0)
    finally show ?thesis using lst T_def by simp
  qed
  have F1: "nxt k \<in> set (inputs_of st (seg ! k))" if "k < m" for k
  proof (cases "Suc k < m")
    case True
    then have "nxt k = T ! Suc (n + k)" using seg_nth[of "Suc k"] by (simp add: nxt_eq)
    moreover have "Suc (n + k) < length T" using True m_eq by simp
    ultimately show ?thesis using path[of "n + k"] seg_nth[OF that] by simp
  next
    case False
    then have "k = m - 1" using that by simp
    then show ?thesis using False seg0 seg_last edge by (simp add: nxt_eq)
  qed
  have segT: "seg ! k \<in> set T" if "k < m" for k
    using that seg_nth[OF that] m_eq by simp
  have nxt_seg: "nxt k \<in> set T" if "k < m" for k
    using segT[of "Suc k"] segT[of 0] m_pos by (auto simp: nxt_eq)
  have dist: "k < m \<Longrightarrow> k' < m \<Longrightarrow> seg ! k = seg ! k' \<Longrightarrow> k = k'" for k k'
  proof -
    assume "k < m" "k' < m" "seg ! k = seg ! k'"
    moreover have "distinct seg" using inv by (simp add: seg_def org_inv_def T_def)
    ultimately show "k = k'" by (simp add: nth_eq_iff_index_eq m_def)
  qed
  have glc: "get_loop_components df st ic =
      (case find (\<lambda>i. \<not> df (nxt i)) [0..<m] of
         None \<Rightarrow> Inl AlgebraicLoopError
       | Some i \<Rightarrow> Inr (seg ! i, nxt i))"
    using n m_eq by (simp add: get_loop_components_def T_def[symmetric] seg_def[symmetric]
        nxt_def Let_def cong: option.case_cong)
  show ?thesis
  proof (cases "find (\<lambda>i. \<not> df (nxt i)) [0..<m]")
    case None
    then have alldf: "\<And>k. k < m \<Longrightarrow> df (nxt k)" by (simp add: find_upt_None)
    have dfseg: "df (seg ! k)" if "k < m" for k
    proof (cases k)
      case 0
      then show ?thesis using alldf[of "m - 1"] m_pos by (simp add: nxt_eq)
    next
      case (Suc k')
      then show ?thesis using alldf[of k'] that by (simp add: nxt_eq)
    qed
    have "(seg ! 0, seg ! 0) \<in> (df_edges df st)\<^sup>+"
    proof (rule cycle_from_segment[OF m_pos])
      fix k assume k: "Suc k < m"
      then have "seg ! Suc k \<in> set (inputs_of st (seg ! k))" using F1[of k] by (simp add: nxt_eq)
      then show "(seg ! k, seg ! Suc k) \<in> df_edges df st"
        using dfseg[of k] dfseg[of "Suc k"] k by (simp add: df_edges_def)
    next
      have "seg ! 0 \<in> set (inputs_of st (seg ! (m - 1)))" using F1[of "m - 1"] m_pos by (simp add: nxt_eq)
      then show "(seg ! (m - 1), seg ! 0) \<in> df_edges df st"
        using dfseg[of 0] dfseg[of "m - 1"] m_pos by (simp add: df_edges_def)
    qed
    then have "algebraic_loop df st" unfolding algebraic_loop_def by blast
    then show ?thesis using None glc by (simp add: sever_system_loop_def)
  next
    case (Some j)
    then have j: "j < m" "\<not> df (nxt j)" "\<And>k. k < j \<Longrightarrow> df (nxt k)"
      using find_upt_Some[of "\<lambda>i. \<not> df (nxt i)" m j] by auto
    define a where "a = seg ! j"
    define b where "b = nxt j"
    have aT: "a \<in> set (sys_trail st)" using segT[OF j(1)] by (simp add: a_def T_def)
    have sa: "sys_info st a = Some (inputs_of st a)" by (rule org_inv_sys_info[OF inv aT])
    have bin: "b \<in> set (inputs_of st a)" using F1[OF j(1)] by (simp add: a_def b_def)
    have bT: "b \<in> set (sys_trail st)" using nxt_seg[OF j(1)] by (simp add: b_def T_def)
    define st1 where
      "st1 = st\<lparr>sys_info := (sys_info st)(a \<mapsto> remove1 b (inputs_of st a)), sys_trail := []\<rparr>"
    have res: "sever_system_loop df st ic = Inr st1"
      using Some glc sa bin by (simp add: sever_system_loop_def a_def b_def st1_def)
    have inv1: "org_inv st1" unfolding st1_def by (rule sever_state_inv[OF inv sa])
    have ev1: "evolves df st st1" unfolding st1_def
      using j(2) bT by (intro sever_state_evolves[OF sa]) (simp_all add: b_def)
    have same: "inputs_of st1 x = inputs_of st x" if "x \<noteq> a" for x
      using that by (simp add: st1_def inputs_of_def)
    have "(seg ! 0, seg ! j) \<in> (kept_edges df st1)\<^sup>*"
    proof (rule chain_from_segment)
      fix k assume k: "k < j"
      then have km: "k < m" "Suc k < m" using j(1) by simp_all
      have "seg ! k \<noteq> a" using dist[OF km(1) j(1)] k by (auto simp: a_def)
      then have "inputs_of st1 (seg ! k) = inputs_of st (seg ! k)" by (rule same)
      moreover have "seg ! Suc k \<in> set (inputs_of st (seg ! k))"
        using F1[OF km(1)] km by (simp add: nxt_eq)
      moreover have "df (seg ! Suc k)" using j(3)[OF k] km by (simp add: nxt_eq)
      ultimately show "(seg ! k, seg ! Suc k) \<in> kept_edges df st1" by (simp add: kept_edges_def)
    qed
    then have "(ic, a) \<in> (kept_edges df st1)\<^sup>*" by (simp add: seg0 a_def)
    moreover have "sys_trail st1 = []" "is_not_mapped st1 = is_not_mapped st"
      by (simp_all add: st1_def)
    ultimately show ?thesis using res inv1 ev1 same by auto
  qed
qed

lemma remove1_last:
  assumes "distinct xs" and "xs \<noteq> []"
  shows "remove1 (last xs) xs = butlast xs"
proof -
  have xs: "xs = butlast xs @ [last xs]" using assms(2) by simp
  then have "last xs \<notin> set (butlast xs)" using assms(1)
    by (metis distinct_append distinct.simps(2) disjoint_iff list.set_intros(1))
  then have "remove1 (last xs) (butlast xs @ [last xs]) = butlast xs"
    by (simp add: remove1_append)
  then show ?thesis using xs by simp
qed

lemma trail_is_path_butlast:
  assumes "trail_is_path st" and "sys_info st' = sys_info st"
    and "sys_trail st' = butlast (sys_trail st)"
  shows "trail_is_path st'"
proof -
  have io: "inputs_of st' = inputs_of st" using assms(2) by (simp add: inputs_of_def fun_eq_iff)
  show ?thesis unfolding trail_is_path_def
  proof (intro allI impI)
    fix k assume k: "Suc k < length (sys_trail st')"
    then have k': "Suc k < length (sys_trail st)" using assms(3) by simp
    have "sys_trail st' ! Suc k = sys_trail st ! Suc k" "sys_trail st' ! k = sys_trail st ! k"
      using k assms(3) by (simp_all add: nth_butlast)
    then show "sys_trail st' ! Suc k \<in> set (inputs_of st' (sys_trail st' ! k))"
      using assms(1) k' io unfolding trail_is_path_def by simp
  qed
qed

lemma loop_pre_trail_mapped:
  assumes "loop_pre st c i" and "mapped st c"
  shows "sys_trail st = []"
proof (rule ccontr)
  assume ne: "sys_trail st \<noteq> []"
  then have "last (sys_trail st) = c" using assms(1) by (simp add: loop_pre_def)
  then have "c \<in> set (sys_trail st)" using ne last_in_set by metis
  then have "is_not_mapped st c" using assms(1) by (simp add: loop_pre_def org_inv_def)
  then show False using assms(2) by (simp add: mapped_def)
qed

lemma finish_component_inv:
  assumes pre: "loop_pre st c i" and len: "length (inputs_of st c) \<le> i"
    and nm: "is_not_mapped st c"
  shows "org_inv (finish_component st c)"
proof -
  define st' where "st' = finish_component st c"
  have f: "sys_info st' = sys_info st" "ordered_comps st' = ordered_comps st @ [c]"
    "is_not_mapped st' = (is_not_mapped st)(c := False)"
    "sys_trail st' = remove1 c (sys_trail st)"
    using nm by (simp_all add: st'_def finish_component_def)
  have io: "inputs_of st' = inputs_of st" using f(1) by (simp add: inputs_of_def fun_eq_iff)
  have inv: "org_inv st" using pre by (simp add: loop_pre_def)
  have dt: "distinct (sys_trail st)" using inv by (simp add: org_inv_def)
  have tr: "sys_trail st' = butlast (sys_trail st)"
  proof (cases "sys_trail st = []")
    case True then show ?thesis using f(4) by simp
  next
    case False
    then have "last (sys_trail st) = c" using pre by (simp add: loop_pre_def)
    then show ?thesis using remove1_last[OF dt False] f(4) by simp
  qed
  have cnot: "c \<notin> set (ordered_comps st)" using inv nm by (simp add: org_inv_def mapped_def)
  have allin: "set (inputs_of st c) \<subseteq> set (ordered_comps st)"
  proof
    fix d assume "d \<in> set (inputs_of st c)"
    then obtain p where p: "p < length (inputs_of st c)" "inputs_of st c ! p = d"
      by (auto simp: in_set_conv_nth)
    then have "mapped st d" using pre nm len by (auto simp: loop_pre_def)
    then show "d \<in> set (ordered_comps st)" using inv by (simp add: org_inv_def)
  qed
  have "closed_info (sys_info st')" using inv f(1) by (simp add: org_inv_def)
  moreover have "distinct (sys_trail st')" using dt f(4) by simp
  moreover have "set (sys_trail st') \<subseteq> dom (sys_info st')"
    using inv f(1,4) set_remove1_subset[of c "sys_trail st"] by (auto simp: org_inv_def)
  moreover have "\<forall>x \<in> set (sys_trail st'). is_not_mapped st' x"
    using inv dt f(3,4) by (auto simp: org_inv_def)
  moreover have "trail_is_path st'"
    using trail_is_path_butlast[OF _ f(1) tr] inv by (simp add: org_inv_def)
  moreover have "distinct (ordered_comps st')" using inv cnot f(2) by (simp add: org_inv_def)
  moreover have "\<forall>x. x \<in> set (ordered_comps st') \<longleftrightarrow> mapped st' x"
    using inv f(2,3) by (auto simp: org_inv_def mapped_def)
  moreover have "inputs_precede st'"
    unfolding inputs_precede_def
  proof (intro allI impI)
    fix j assume j: "j < length (ordered_comps st')"
    show "set (inputs_of st' (ordered_comps st' ! j)) \<subseteq> set (take j (ordered_comps st'))"
    proof (cases "j < length (ordered_comps st)")
      case True
      then show ?thesis using inv io f(2) unfolding org_inv_def inputs_precede_def
        by (simp add: nth_append)
    next
      case False
      then have "j = length (ordered_comps st)" using j f(2) by simp
      then show ?thesis using allin io f(2) by simp
    qed
  qed
  ultimately show ?thesis unfolding org_inv_def st'_def by blast
qed

lemma finish_spec:
  assumes pre: "loop_pre st c i" and len: "length (inputs_of st c) \<le> i"
  shows "loop_post df st c (Inr (finish_component st c))"
proof (cases "is_not_mapped st c")
  case False
  then have m: "mapped st c" by (simp add: mapped_def)
  have "finish_component st c = st" using False by (simp add: finish_component_def)
  moreover have "sys_trail st = []" by (rule loop_pre_trail_mapped[OF pre m])
  ultimately show ?thesis using pre m
    by (auto simp: loop_post_def loop_pre_def evolves_refl mapped_def)
next
  case nm: True
  define st' where "st' = finish_component st c"
  have f: "sys_info st' = sys_info st" "ordered_comps st' = ordered_comps st @ [c]"
    "is_not_mapped st' = (is_not_mapped st)(c := False)"
    "sys_trail st' = remove1 c (sys_trail st)"
    using nm by (simp_all add: st'_def finish_component_def)
  have io: "inputs_of st' = inputs_of st" using f(1) by (simp add: inputs_of_def fun_eq_iff)
  have inv: "org_inv st" using pre by (simp add: loop_pre_def)
  have dt: "distinct (sys_trail st)" using inv by (simp add: org_inv_def)
  have tr: "sys_trail st' = butlast (sys_trail st)"
  proof (cases "sys_trail st = []")
    case True then show ?thesis using f(4) by simp
  next
    case False
    then have "last (sys_trail st) = c" using pre by (simp add: loop_pre_def)
    then show ?thesis using remove1_last[OF dt False] f(4) by simp
  qed
  have "org_inv st'" unfolding st'_def by (rule finish_component_inv[OF pre len nm])
  moreover have "evolves df st st'"
    unfolding evolves_def using f io set_remove1_subset[of c "sys_trail st"]
    by (auto simp: mapped_def)
  moreover have "mapped st' c" using f(3) by (simp add: mapped_def)
  moreover have "\<forall>d. is_not_mapped st d \<longrightarrow> mapped st' d \<longrightarrow> (c, d) \<in> (edges st)\<^sup>*"
    using f(3) by (auto simp: mapped_def split: if_splits)
  ultimately show ?thesis using io tr unfolding loop_post_def st'_def[symmetric] by simp
qed

lemma record_pre:
  assumes inv: "org_inv st1" and nm: "is_not_mapped st1 ic"
    and nt: "ic \<notin> set (sys_trail st1)" and dm: "ic \<in> dom (sys_info st1)"
    and tr: "sys_trail st1 = [] \<or> (last (sys_trail st1) = c \<and> ic \<in> set (inputs_of st1 c))"
  shows "loop_pre (record_in_trail st1 ic) ic 0"
proof -
  let ?st = "record_in_trail st1 ic"
  have "trail_is_path ?st"
    unfolding trail_is_path_def
  proof (intro allI impI)
    fix k assume k: "Suc k < length (sys_trail ?st)"
    then have ne: "sys_trail st1 \<noteq> []" by auto
    show "sys_trail ?st ! Suc k \<in> set (inputs_of ?st (sys_trail ?st ! k))"
    proof (cases "Suc k < length (sys_trail st1)")
      case True
      then show ?thesis using inv unfolding org_inv_def trail_is_path_def
        by (simp add: nth_append)
    next
      case False
      then have kk: "Suc k = length (sys_trail st1)" using k by simp
      then have "sys_trail st1 ! k = last (sys_trail st1)"
        using ne by (metis diff_Suc_1 last_conv_nth)
      then show ?thesis using tr ne kk by (simp add: nth_append)
    qed
  qed
  then have "org_inv ?st"
    using inv nm nt dm unfolding org_inv_def
    by (auto simp: inputs_precede_def mapped_def)
  then show ?thesis using dm by (simp add: loop_pre_def)
qed

lemma check_feedback_spec:
  assumes pre: "loop_pre st c i" and i: "i < length (inputs_of st c)"
  shows "case check_feedback df st (inputs_of st c ! i) of
           Inl e \<Rightarrow> e = AlgebraicLoopError \<and> algebraic_loop df st
         | Inr st1 \<Rightarrow> org_inv st1 \<and> evolves df st st1 \<and>
               (sys_trail st1 = [] \<or> st1 = st) \<and>
               inputs_of st c ! i \<notin> set (sys_trail st1) \<and>
               is_not_mapped st1 = is_not_mapped st \<and>
               (\<exists>a. (inputs_of st c ! i, a) \<in> (kept_edges df st1)\<^sup>* \<and>
                    (\<forall>x. x \<noteq> a \<longrightarrow> inputs_of st1 x = inputs_of st x))"
proof (cases "inputs_of st c ! i \<in> set (sys_trail st)")
  case False
  then have "check_feedback df st (inputs_of st c ! i) = Inr st" by (simp add: check_feedback_def)
  then show ?thesis using False pre by (auto simp: loop_pre_def evolves_refl)
next
  case True
  then have "sys_trail st \<noteq> []" by auto
  then have lst: "last (sys_trail st) = c" using pre by (simp add: loop_pre_def)
  have inv: "org_inv st" using pre by (simp add: loop_pre_def)
  have edge: "inputs_of st c ! i \<in> set (inputs_of st c)" using i by simp
  have cf: "check_feedback df st (inputs_of st c ! i) = sever_system_loop df st (inputs_of st c ! i)"
    using True by (simp add: check_feedback_def)
  show ?thesis unfolding cf using sever_spec[OF inv True lst edge, of df]
    by (auto split: sum.splits)
qed

lemma loop_post_compose:
  assumes ev: "evolves df st st2"
    and same: "\<forall>x. inputs_of st2 x = inputs_of st x \<or> mapped st2 x"
    and reach: "\<forall>d. is_not_mapped st d \<longrightarrow> mapped st2 d \<longrightarrow> (c, d) \<in> (edges st)\<^sup>*"
    and tr: "sys_trail st2 = [] \<or> sys_trail st2 = sys_trail st"
    and post: "loop_post df st2 c r"
  shows "loop_post df st c r"
proof (cases r)
  case (Inl e)
  then show ?thesis using post evolves_algebraic_loop[OF ev] by (simp add: loop_post_def)
next
  case (Inr st')
  then have p: "org_inv st'" "evolves df st2 st'" "mapped st' c"
    "\<forall>x. inputs_of st' x = inputs_of st2 x \<or> mapped st' x"
    "sys_trail st' = [] \<or> sys_trail st' = butlast (sys_trail st2)"
    "\<forall>d. is_not_mapped st2 d \<longrightarrow> mapped st' d \<longrightarrow> (c, d) \<in> (edges st2)\<^sup>*"
    using post by (simp_all add: loop_post_def)
  have "evolves df st st'" using ev p(2) by (rule evolves_trans)
  moreover have "\<forall>x. inputs_of st' x = inputs_of st x \<or> mapped st' x"
    using same p(4) evolves_mapped[OF p(2)] by metis
  moreover have "sys_trail st' = [] \<or> sys_trail st' = butlast (sys_trail st)"
    using tr p(5) by auto
  moreover have "\<forall>d. is_not_mapped st d \<longrightarrow> mapped st' d \<longrightarrow> (c, d) \<in> (edges st)\<^sup>*"
  proof (intro allI impI)
    fix d assume d: "is_not_mapped st d" "mapped st' d"
    show "(c, d) \<in> (edges st)\<^sup>*"
    proof (cases "mapped st2 d")
      case True then show ?thesis using reach d by simp
    next
      case False
      then have "(c, d) \<in> (edges st2)\<^sup>*" using p(6) d by (simp add: mapped_def)
      then show ?thesis using rtrancl_mono[OF evolves_edges[OF ev]] by blast
    qed
  qed
  ultimately show ?thesis using p(1,3) Inr by (simp add: loop_post_def)
qed

lemma inputs_loop_unfold_finish:
  "sys_info st c = Some L \<Longrightarrow> \<not> i < length L \<Longrightarrow>
     inputs_loop df c i st = Some (Inr (finish_component st c))"
  by (subst inputs_loop.simps) simp

lemma inputs_loop_unfold_error:
  "sys_info st c = Some L \<Longrightarrow> i < length L \<Longrightarrow> check_feedback df st (L ! i) = Inl e \<Longrightarrow>
     inputs_loop df c i st = Some (Inl e)"
  by (subst inputs_loop.simps) simp

lemma inputs_loop_unfold_skip:
  "sys_info st c = Some L \<Longrightarrow> i < length L \<Longrightarrow> check_feedback df st (L ! i) = Inr st1 \<Longrightarrow>
     \<not> is_not_mapped st1 (L ! i) \<Longrightarrow>
     inputs_loop df c i st = inputs_loop df c (i + 1) st1"
  by (subst inputs_loop.simps) simp

lemma inputs_loop_unfold_child:
  "sys_info st c = Some L \<Longrightarrow> i < length L \<Longrightarrow> check_feedback df st (L ! i) = Inr st1 \<Longrightarrow>
     is_not_mapped st1 (L ! i) \<Longrightarrow>
     inputs_loop df c i st =
       Option.bind (inputs_loop df (L ! i) 0 (record_in_trail st1 (L ! i)))
         (\<lambda>r. case r of Inl e \<Rightarrow> Some (Inl e) | Inr st2 \<Rightarrow> inputs_loop df c (i + 1) st2)"
  by (subst inputs_loop.simps) simp

lemma edges_record_in_trail [simp]:
  "edges (record_in_trail st c) = edges st"
  "df_edges df (record_in_trail st c) = df_edges df st"
  "algebraic_loop df (record_in_trail st c) = algebraic_loop df st"
  "mapped (record_in_trail st c) = mapped st"
  by (simp_all add: edges_def df_edges_def algebraic_loop_def mapped_def fun_eq_iff)

lemma inputs_loop_correct:
  assumes fin: "finite (dom (sys_info st))" and pre: "loop_pre st c i"
    and run: "inputs_loop df c i st = Some r"
  shows "loop_post df st c r"
proof -
  define P where "P = (\<lambda>st c i. \<forall>r. loop_pre st c i \<longrightarrow> inputs_loop df c i st = Some r \<longrightarrow>
      loop_post df st c r)"
  have "P st c i"
  proof (rule inputs_loop_induct[where df = df and P = P, OF fin])
    fix st :: "'a organizer" and c i
    assume IH1: "\<And>L st1. sys_info st c = Some L \<Longrightarrow> i < length L \<Longrightarrow>
           check_feedback df st (L ! i) = Inr st1 \<Longrightarrow> is_not_mapped st1 (L ! i) \<Longrightarrow>
           sys_info st1 (L ! i) \<noteq> None \<Longrightarrow> P (record_in_trail st1 (L ! i)) (L ! i) 0"
      and IH2: "\<And>L st1 st2. sys_info st c = Some L \<Longrightarrow> i < length L \<Longrightarrow>
           check_feedback df st (L ! i) = Inr st1 \<Longrightarrow> is_not_mapped st1 (L ! i) \<Longrightarrow>
           inputs_loop df (L ! i) 0 (record_in_trail st1 (L ! i)) = Some (Inr st2) \<Longrightarrow>
           P st2 c (i + 1)"
      and IH3: "\<And>L st1. sys_info st c = Some L \<Longrightarrow> i < length L \<Longrightarrow>
           check_feedback df st (L ! i) = Inr st1 \<Longrightarrow> \<not> is_not_mapped st1 (L ! i) \<Longrightarrow>
           P st1 c (i + 1)"
    show "P st c i" unfolding P_def
    proof (intro allI impI)
      fix r assume pre: "loop_pre st c i" and run: "inputs_loop df c i st = Some r"
      have inv: "org_inv st" using pre by (simp add: loop_pre_def)
      obtain L where L: "sys_info st c = Some L" using pre by (auto simp: loop_pre_def)
      have io: "inputs_of st c = L" using L by (simp add: inputs_of_def)
      show "loop_post df st c r"
      proof (cases "i < length L")
        case False
        then have "r = Inr (finish_component st c)"
          using run inputs_loop_unfold_finish[OF L False, of df] by simp
        then show ?thesis using finish_spec[OF pre, of df] False io by simp
      next
        case True
        define ic where "ic = L ! i"
        have icL: "ic \<in> set (inputs_of st c)" using True io by (simp add: ic_def)
        have cf: "case check_feedback df st ic of
           Inl e \<Rightarrow> e = AlgebraicLoopError \<and> algebraic_loop df st
         | Inr st1 \<Rightarrow> org_inv st1 \<and> evolves df st st1 \<and>
               (sys_trail st1 = [] \<or> st1 = st) \<and> ic \<notin> set (sys_trail st1) \<and>
               is_not_mapped st1 = is_not_mapped st \<and>
               (\<exists>a. (ic, a) \<in> (kept_edges df st1)\<^sup>* \<and>
                    (\<forall>x. x \<noteq> a \<longrightarrow> inputs_of st1 x = inputs_of st x))"
          using check_feedback_spec[OF pre, of df] True io
          by (simp add: ic_def cong: sum.case_cong)
        show ?thesis
        proof (cases "check_feedback df st ic")
          case (Inl e)
          then have "r = Inl e"
            using run inputs_loop_unfold_error[OF L True, of df e] by (simp add: ic_def)
          then show ?thesis using cf Inl by (simp add: loop_post_def)
        next
          case (Inr st1)
          then have inv1: "org_inv st1" and ev1: "evolves df st st1"
            and tr1: "sys_trail st1 = [] \<or> st1 = st" and nt1: "ic \<notin> set (sys_trail st1)"
            and fl1: "is_not_mapped st1 = is_not_mapped st"
            and ex1: "\<exists>a. (ic, a) \<in> (kept_edges df st1)\<^sup>* \<and>
                    (\<forall>x. x \<noteq> a \<longrightarrow> inputs_of st1 x = inputs_of st x)"
            using cf by simp_all
          have Inr': "check_feedback df st (L ! i) = Inr st1" using Inr by (simp add: ic_def)
          show ?thesis
          proof (cases "is_not_mapped st1 ic")
            case False
            have "ic \<notin> set (sys_trail st)"
              using False fl1 inv by (auto simp: org_inv_def)
            then have st1: "st1 = st" using Inr by (simp add: check_feedback_def)
            have run': "inputs_loop df c (i + 1) st = Some r"
              using run inputs_loop_unfold_skip[OF L True Inr'] False st1
              by (simp add: ic_def)
            have "loop_pre st c (i + 1)"
              using pre False st1 io unfolding loop_pre_def
              by (auto simp: less_Suc_eq mapped_def ic_def)
            moreover have "P st c (i + 1)" using IH3[OF L True Inr'] False st1 by (simp add: ic_def)
            ultimately show ?thesis using run' by (simp add: P_def)
          next
            case nm: True
            let ?st1' = "record_in_trail st1 ic"
            have unf: "inputs_loop df c i st = Option.bind (inputs_loop df ic 0 ?st1')
                 (\<lambda>r. case r of Inl e \<Rightarrow> Some (Inl e) | Inr st2 \<Rightarrow> inputs_loop df c (i + 1) st2)"
              unfolding ic_def
              by (rule inputs_loop_unfold_child[OF L True Inr']) (use nm in \<open>simp add: ic_def\<close>)
            have bind: "Option.bind (inputs_loop df ic 0 ?st1')
                 (\<lambda>r. case r of Inl e \<Rightarrow> Some (Inl e) | Inr st2 \<Rightarrow> inputs_loop df c (i + 1) st2)
                 = Some r"
              unfolding unf[symmetric] by (rule run)
            then obtain r1 where r1: "inputs_loop df ic 0 ?st1' = Some r1"
              and r1': "(case r1 of Inl e \<Rightarrow> Some (Inl e)
                         | Inr st2 \<Rightarrow> inputs_loop df c (i + 1) st2) = Some r"
              by (auto simp: bind_eq_Some_conv)
            have dm: "ic \<in> dom (sys_info st1)"
              using org_inv_inputs_dom[OF inv icL] evolves_dom[OF ev1] by simp
            have trc: "sys_trail st1 = [] \<or> (last (sys_trail st1) = c \<and> ic \<in> set (inputs_of st1 c))"
              using tr1 pre icL by (auto simp: loop_pre_def)
            have pre1: "loop_pre ?st1' ic 0" by (rule record_pre[OF inv1 nm nt1 dm trc])
            have "P ?st1' ic 0" using IH1[OF L True Inr'] nm dm by (auto simp: ic_def)
            then have post1: "loop_post df ?st1' ic r1" using pre1 r1 by (simp add: P_def)
            show ?thesis
            proof (cases r1)
              case (Inl e)
              then have "r = Inl e" using r1' by simp
              moreover have "e = AlgebraicLoopError" "algebraic_loop df st1"
                using post1 Inl by (simp_all add: loop_post_def)
              ultimately show ?thesis using evolves_algebraic_loop[OF ev1]
                by (simp add: loop_post_def)
            next
              case r2: (Inr st2)
              then have run2: "inputs_loop df c (i + 1) st2 = Some r" using r1' by simp
              have inv2: "org_inv st2" and ev2: "evolves df ?st1' st2" and mic: "mapped st2 ic"
                and same2: "\<forall>x. inputs_of st2 x = inputs_of st1 x \<or> mapped st2 x"
                and tr2: "sys_trail st2 = [] \<or> sys_trail st2 = sys_trail st1"
                and reach2: "\<forall>d. is_not_mapped st1 d \<longrightarrow> mapped st2 d \<longrightarrow> (ic, d) \<in> (edges st1)\<^sup>*"
                using post1 r2 by (simp_all add: loop_post_def)
              have ev12: "evolves df st1 st2" by (rule evolves_record_in_trail[OF ev2 mic tr2])
              have ev02: "evolves df st st2" by (rule evolves_trans[OF ev1 ev12])
              from ex1 obtain a where a: "(ic, a) \<in> (kept_edges df st1)\<^sup>*"
                and same1: "\<forall>x. x \<noteq> a \<longrightarrow> inputs_of st1 x = inputs_of st x" by blast
              have "(ic, a) \<in> (edges st2)\<^sup>*"
                using a rtrancl_mono[OF evolves_kept_edges[OF ev12]] by blast
              then have ma: "mapped st2 a" using mapped_reachable[OF inv2 _ mic] by simp
              have same02: "\<forall>x. inputs_of st2 x = inputs_of st x \<or> mapped st2 x"
                using same1 same2 ma by metis
              have tr02: "sys_trail st2 = [] \<or> sys_trail st2 = sys_trail st"
                using tr1 tr2 by auto
              have reach02: "\<forall>d. is_not_mapped st d \<longrightarrow> mapped st2 d \<longrightarrow> (c, d) \<in> (edges st)\<^sup>*"
              proof (intro allI impI)
                fix d assume "is_not_mapped st d" "mapped st2 d"
                then have "(ic, d) \<in> (edges st1)\<^sup>*" using reach2 fl1 by simp
                then have "(ic, d) \<in> (edges st)\<^sup>*"
                  using rtrancl_mono[OF evolves_edges[OF ev1]] by blast
                moreover have "(c, ic) \<in> edges st" using icL by (simp add: edges_def)
                ultimately show "(c, d) \<in> (edges st)\<^sup>*" by (rule converse_rtrancl_into_rtrancl[rotated])
              qed
              have pre2: "loop_pre st2 c (i + 1)"
                unfolding loop_pre_def
              proof (intro conjI impI allI)
                show "org_inv st2" by (rule inv2)
                show "c \<in> dom (sys_info st2)" using pre evolves_dom[OF ev02] by (simp add: loop_pre_def)
                show "sys_trail st2 = [] \<or> last (sys_trail st2) = c"
                  using tr02 pre by (auto simp: loop_pre_def)
              next
                fix p assume nm2: "is_not_mapped st2 c" and p: "p < i + 1" "p < length (inputs_of st2 c)"
                have eq: "inputs_of st2 c = L" using same02 nm2 io by (auto simp: mapped_def)
                have nm0: "is_not_mapped st c" using nm2 evolves_mapped[OF ev02, of c] by (auto simp: mapped_def)
                show "mapped st2 (inputs_of st2 c ! p)"
                proof (cases "p = i")
                  case True then show ?thesis using mic eq by (simp add: ic_def)
                next
                  case False
                  then have "p < i" using p by simp
                  then have "mapped st (L ! p)" using pre nm0 p(2) eq io by (auto simp: loop_pre_def)
                  then show ?thesis using evolves_mapped[OF ev02] eq by simp
                qed
              qed
              have "P st2 c (i + 1)" using IH2[OF L True Inr' _ ] nm r1 r2 by (simp add: ic_def)
              then have "loop_post df st2 c r" using pre2 run2 by (simp add: P_def)
              then show ?thesis by (rule loop_post_compose[OF ev02 same02 reach02 tr02])
            qed
          qed
        qed
      qed
    qed
  qed
  then show ?thesis using pre run by (simp add: P_def)
qed

lemma new_organizer_simps [simp]:
  "sys_info (new_organizer info) = info"
  "sys_trail (new_organizer info) = []"
  "ordered_comps (new_organizer info) = []"
  "is_not_mapped (new_organizer info) c"
  "\<not> mapped (new_organizer info) c"
  by (simp_all add: new_organizer_def mapped_def)

lemma new_organizer_inv: "closed_info info \<Longrightarrow> org_inv (new_organizer info)"
  by (simp add: org_inv_def trail_is_path_def inputs_precede_def)



lemma build_system_order_post:
  assumes fin: "finite (dom info)" and cl: "closed_info info" and cm: "cmp \<in> dom info"
  obtains r where "build_system_order df (new_organizer info) cmp = Some r"
    and "loop_post df (record_in_trail (new_organizer info) cmp) cmp r"
proof -
  let ?st = "record_in_trail (new_organizer info) cmp"
  have fin': "finite (dom (sys_info ?st))" using fin by simp
  have "finite (dom (sys_info (fst (?st, cmp, 0::nat))))" using fin by simp
  from inputs_loop_terminates_aux[OF this, of df]
  obtain r where r: "inputs_loop df cmp 0 ?st = Some r"
    unfolding fst_conv snd_conv by blast
  have "loop_pre ?st cmp 0"
    by (rule record_pre[OF new_organizer_inv[OF cl]]) (use cm in simp_all)
  then have "loop_post df ?st cmp r" using r by (rule inputs_loop_correct[OF fin'])
  then show ?thesis using r that by (simp add: build_system_order_def)
qed

lemma reachable_mapped:
  assumes post: "loop_post df (record_in_trail (new_organizer info) cmp) cmp (Inr st')"
    and reach: "(cmp, y) \<in> (edges (new_organizer info))\<^sup>*"
  shows "mapped st' y"
proof -
  let ?st = "record_in_trail (new_organizer info) cmp"
  have inv: "org_inv st'" and ev: "evolves df ?st st'" and mc: "mapped st' cmp"
    using post by (simp_all add: loop_post_def)
  show ?thesis using reach
  proof (induction rule: rtrancl_induct)
    case base
    show ?case by (rule mc)
  next
    case (step y z)
    have yz: "z \<in> set (inputs_of ?st y)" using step.hyps(2) by (simp add: edges_def)
    show ?case
    proof (cases "z \<in> set (inputs_of st' y)")
      case True
      then show ?thesis using mapped_edge[OF inv step.IH] by (simp add: edges_def)
    next
      case False
      then have "mapped st' z \<or> z \<in> set (sys_trail ?st)"
        using ev yz unfolding evolves_def by blast
      then show ?thesis using mc by auto
    qed
  qed
qed








text \<open>
  Claim C1.  Take a diagram with finitely many components, every input of which is a
  component of the diagram, and in which every cycle of input dependencies has a member
  that is not direct-feedthrough (there is no algebraic loop).  Then
  \<open>build_system_order\<close>, started on a fresh organizer at any component, returns; every
  component reachable from the start is in the order exactly once; every component comes
  after all the inputs it still has; and the inputs removed are severed edges only, each
  leading to a component that is not direct-feedthrough.
\<close>

theorem build_system_order_resolves_feedback:
  assumes fin: "finite (dom info)" and cl: "closed_info info" and cm: "cmp \<in> dom info"
    and na: "\<not> algebraic_loop df (new_organizer info)"
  shows "\<exists>st'. build_system_order df (new_organizer info) cmp = Some (Inr st') \<and>
           distinct (ordered_comps st') \<and>
           set (ordered_comps st') = {d. (cmp, d) \<in> (edges (new_organizer info))\<^sup>*} \<and>
           inputs_precede st' \<and>
           (\<forall>c. set (inputs_of st' c) \<subseteq> set (inputs_of (new_organizer info) c)) \<and>
           (\<forall>c d. d \<in> set (inputs_of (new_organizer info) c) \<longrightarrow>
                  d \<notin> set (inputs_of st' c) \<longrightarrow> \<not> df d)"
proof -
  let ?st = "record_in_trail (new_organizer info) cmp"
  obtain r where r: "build_system_order df (new_organizer info) cmp = Some r"
    and post: "loop_post df ?st cmp r"
    by (rule build_system_order_post[OF fin cl cm])
  show ?thesis
  proof (cases r)
    case (Inl e)
    then have "algebraic_loop df ?st" using post by (simp add: loop_post_def)
    then show ?thesis using na by simp
  next
    case (Inr st')
    have post': "loop_post df ?st cmp (Inr st')" using post Inr by simp
    then have inv: "org_inv st'" and ev: "evolves df ?st st'"
      and new: "\<forall>d. is_not_mapped ?st d \<longrightarrow> mapped st' d \<longrightarrow> (cmp, d) \<in> (edges ?st)\<^sup>*"
      by (simp_all add: loop_post_def)
    have "set (ordered_comps st') = {d. (cmp, d) \<in> (edges (new_organizer info))\<^sup>*}"
    proof (intro set_eqI iffI)
      fix d assume "d \<in> set (ordered_comps st')"
      then have "mapped st' d" using inv by (simp add: org_inv_def)
      then show "d \<in> {d. (cmp, d) \<in> (edges (new_organizer info))\<^sup>*}" using new by simp
    next
      fix d assume "d \<in> {d. (cmp, d) \<in> (edges (new_organizer info))\<^sup>*}"
      then have "mapped st' d" using reachable_mapped[OF post'] by simp
      then show "d \<in> set (ordered_comps st')" using inv by (simp add: org_inv_def)
    qed
    moreover have "\<forall>c. set (inputs_of st' c) \<subseteq> set (inputs_of (new_organizer info) c)"
      using ev by (simp add: evolves_def)
    moreover have "\<forall>c d. d \<in> set (inputs_of (new_organizer info) c) \<longrightarrow>
                  d \<notin> set (inputs_of st' c) \<longrightarrow> \<not> df d"
    proof -
      have "\<forall>c d. d \<in> set (inputs_of ?st c) \<longrightarrow> d \<notin> set (inputs_of st' c) \<longrightarrow> \<not> df d"
        using ev unfolding evolves_def by blast
      then show ?thesis by simp
    qed
    moreover have "distinct (ordered_comps st')" "inputs_precede st'"
      using inv by (simp_all add: org_inv_def)
    moreover have "build_system_order df (new_organizer info) cmp = Some (Inr st')"
      using r Inr by simp
    ultimately show ?thesis by blast
  qed
qed


text \<open>
  Claim C3.  On a dictionary with finitely many components \<open>build_system_order\<close>
  returns or raises, from every state of the organizer; each severance that succeeds
  leaves strictly fewer edges; and the loop passes over an input that is already mapped
  without recursing into it.
\<close>

theorem build_system_order_terminates:
  assumes fin: "finite (dom (sys_info st))"
  shows "(\<exists>r. build_system_order df st cmp = Some r) \<and>
         (\<forall>x st'. sever_system_loop df st x = Inr st' \<longrightarrow> edge_count st' < edge_count st) \<and>
         (\<forall>c i L st1. sys_info st c = Some L \<and> i < length L \<and>
            check_feedback df st (L ! i) = Inr st1 \<and> \<not> is_not_mapped st1 (L ! i) \<longrightarrow>
            inputs_loop df c i st = inputs_loop df c (i + 1) st1)"
proof (intro conjI allI impI)
  have "finite (dom (sys_info (fst (record_in_trail st cmp, cmp, 0::nat))))" using fin by simp
  from inputs_loop_terminates_aux[OF this, of df]
  obtain r where "inputs_loop df cmp 0 (record_in_trail st cmp) = Some r"
    unfolding fst_conv snd_conv by blast
  then show "\<exists>r. build_system_order df st cmp = Some r"
    unfolding build_system_order_def by (rule exI)
next
  fix x st' assume "sever_system_loop df st x = Inr st'"
  from sever_progresses[OF fin this] show "edge_count st' < edge_count st" by (rule conjunct1[OF conjunct2])
next
  fix c i L st1
  assume a: "sys_info st c = Some L \<and> i < length L \<and>
            check_feedback df st (L ! i) = Inr st1 \<and> \<not> is_not_mapped st1 (L ! i)"
  have a1: "sys_info st c = Some L" and a2: "i < length L"
    and a3: "check_feedback df st (L ! i) = Inr st1" and a4: "\<not> is_not_mapped st1 (L ! i)"
    using a by simp_all
  show "inputs_loop df c i st = inputs_loop df c (i + 1) st1"
    by (rule inputs_loop_unfold_skip[OF a1 a2 a3 a4])
qed

lemma example_finite: "finite (dom example_info)"
  by (simp add: example_info_def)

lemma example_closed: "closed_info example_info"
  by (auto simp: closed_info_def example_info_def split: if_splits)

lemma example_dom: "''A'' \<in> dom example_info"
  by (simp add: example_info_def)

lemma example_df_edges:
  "df_edges example_df (new_organizer example_info) = {(''B'', ''A'')}"
  by (auto simp: df_edges_def inputs_of_def example_df_def example_info_def split: if_splits)

lemma example_no_algebraic_loop:
  "\<not> algebraic_loop example_df (new_organizer example_info)"
  by (simp add: algebraic_loop_def example_df_edges trancl_insert)

lemma example_run:
  "map_option (map_sum id (observe [''A'', ''B'', ''C'']))
     (build_system_order example_df (new_organizer example_info) ''A'') =
   Some (Inr ([''A'', ''B'', ''C''], [], [Some [], Some [''A''], Some [''B'']]))"
  by code_simp

text \<open>
  The example \<open>A \<rightarrow> B \<rightarrow> C \<rightarrow> A\<close> with \<open>C\<close> not direct-feedthrough: the scan of the
  trail \<open>[A, C, B]\<close> stops at \<open>A\<close>, whose successor \<open>C\<close> is the first that is not
  direct-feedthrough, so \<open>C\<close> is removed from the inputs of \<open>A\<close>, and the order is
  \<open>A, B, C\<close>.
\<close>

theorem build_system_order_resolves_feedback_witness:
  "finite (dom example_info) \<and> closed_info example_info \<and> ''A'' \<in> dom example_info \<and>
   \<not> algebraic_loop example_df (new_organizer example_info) \<and>
   (\<exists>st'. build_system_order example_df (new_organizer example_info) ''A'' = Some (Inr st') \<and>
           distinct (ordered_comps st') \<and>
           set (ordered_comps st') = {d. (''A'', d) \<in> (edges (new_organizer example_info))\<^sup>*} \<and>
           inputs_precede st' \<and>
           (\<forall>c. set (inputs_of st' c) \<subseteq> set (inputs_of (new_organizer example_info) c)) \<and>
           (\<forall>c d. d \<in> set (inputs_of (new_organizer example_info) c) \<longrightarrow>
                  d \<notin> set (inputs_of st' c) \<longrightarrow> \<not> example_df d)) \<and>
   map_option (map_sum id (observe [''A'', ''B'', ''C'']))
     (build_system_order example_df (new_organizer example_info) ''A'') =
   Some (Inr ([''A'', ''B'', ''C''], [], [Some [], Some [''A''], Some [''B'']]))"
  using build_system_order_resolves_feedback[OF example_finite example_closed example_dom
      example_no_algebraic_loop]
    example_finite example_closed example_dom example_no_algebraic_loop example_run
  by blast









lemma example_on_trail_sever:
  "\<not> isl (sever_system_loop example_df example_on_trail ''A'')"
  by code_simp

lemma example_mapped_skip:
  "sys_info example_mapped ''B'' = Some [''A''] \<and> (0::nat) < length [''A''] \<and>
   check_feedback example_df example_mapped ([''A''] ! 0) = Inr example_mapped \<and>
   \<not> is_not_mapped example_mapped ([''A''] ! 0)"
  by (simp add: example_mapped_def example_info_def check_feedback_def)

theorem build_system_order_terminates_witness:
  "finite (dom example_info) \<and>
   (\<exists>r. build_system_order example_df (new_organizer example_info) ''A'' = Some r) \<and>
   (\<exists>st'. sever_system_loop example_df example_on_trail ''A'' = Inr st' \<and>
          edge_count st' < edge_count example_on_trail) \<and>
   inputs_loop example_df ''B'' 0 example_mapped = inputs_loop example_df ''B'' (0 + 1) example_mapped"
proof -
  have f1: "finite (dom (sys_info (new_organizer example_info)))"
    and f2: "finite (dom (sys_info example_on_trail))"
    and f3: "finite (dom (sys_info example_mapped))"
    using example_finite by (simp_all add: example_on_trail_def example_mapped_def)
  obtain st' where s: "sever_system_loop example_df example_on_trail ''A'' = Inr st'"
    using example_on_trail_sever by (cases "sever_system_loop example_df example_on_trail ''A''") auto
  have "\<exists>r. build_system_order example_df (new_organizer example_info) ''A'' = Some r"
    using build_system_order_terminates[OF f1, of example_df "''A''"] by blast
  moreover have "edge_count st' < edge_count example_on_trail"
    using build_system_order_terminates[OF f2, of example_df "''A''"] s by blast
  moreover have "inputs_loop example_df ''B'' 0 example_mapped =
      inputs_loop example_df ''B'' (0 + 1) example_mapped"
    using build_system_order_terminates[OF f3, of example_df "''A''"] example_mapped_skip by blast
  ultimately show ?thesis using example_finite s by blast
qed

section \<open>Properties of the name registry\<close>

declare str_nat.simps [simp del]

lemma digit_val_digit_char: "d < 10 \<Longrightarrow> digit_val (digit_char d) = d"
  by (simp add: digit_val_def digit_char_def)

lemma is_digit_digit_char: "d < 10 \<Longrightarrow> is_digit (digit_char d)"
  by (simp add: is_digit_def digit_char_def)

lemma str_nat_digits: "c \<in> set (str_nat n) \<Longrightarrow> is_digit c"
proof (induction n arbitrary: c rule: str_nat.induct)
  case (1 n)
  show ?case
  proof (cases "n < 10")
    case True
    then show ?thesis using "1.prems" by (subst (asm) str_nat.simps) (auto simp: is_digit_digit_char)
  next
    case False
    then have "c \<in> set (str_nat (n div 10)) \<or> c = digit_char (n mod 10)"
      using "1.prems" by (subst (asm) str_nat.simps) auto
    then show ?thesis using "1.IH"[OF False] by (auto simp: is_digit_digit_char)
  qed
qed

lemma str_nat_nonempty: "str_nat n \<noteq> []"
  by (subst str_nat.simps) simp

lemma foldl_digits_str_nat: "foldl (\<lambda>a c. 10 * a + digit_val c) 0 (str_nat n) = n"
proof (induction n rule: str_nat.induct)
  case (1 n)
  show ?case
  proof (cases "n < 10")
    case True
    then show ?thesis by (subst str_nat.simps) (simp add: digit_val_digit_char)
  next
    case False
    then show ?thesis using "1.IH"[OF False]
      by (subst str_nat.simps) (simp add: digit_val_digit_char)
  qed
qed

lemma int_of_digits_str_nat: "int_of_digits (str_nat n) = int n"
  by (simp add: int_of_digits_def foldl_digits_str_nat)

lemma str_nat_inj:
  assumes "str_nat m = str_nat n"
  shows "m = n"
proof -
  have "m = foldl (\<lambda>a c. 10 * a + digit_val c) 0 (str_nat m)"
    by (simp only: foldl_digits_str_nat)
  also have "\<dots> = foldl (\<lambda>a c. 10 * a + digit_val c) 0 (str_nat n)"
    by (simp only: assms)
  also have "\<dots> = n" by (rule foldl_digits_str_nat)
  finally show ?thesis .
qed

lemma minus_not_digit: "\<not> is_digit (CHR ''-'')"
  by (simp add: is_digit_def)

lemma underscore_not_digit: "\<not> is_digit (CHR ''_'')"
  by (simp add: is_digit_def)

lemma str_int_inj: "str_int i = str_int j \<Longrightarrow> i = j"
proof -
  assume eq: "str_int i = str_int j"
  have neg: "str_nat m \<noteq> CHR ''-'' # str_nat n" for m n
  proof
    assume "str_nat m = CHR ''-'' # str_nat n"
    then have "CHR ''-'' \<in> set (str_nat m)" by simp
    then show False using str_nat_digits minus_not_digit by blast
  qed
  show ?thesis
  proof (cases "i < 0"; cases "j < 0")
    assume "i < 0" "j < 0"
    then show ?thesis using eq str_nat_inj[of "nat (- i)" "nat (- j)"] by (simp add: str_int_def)
  next
    assume "i < 0" "\<not> j < 0"
    then show ?thesis using eq neg[of "nat j" "nat (- i)"] by (simp add: str_int_def)
  next
    assume "\<not> i < 0" "j < 0"
    then show ?thesis using eq neg[of "nat i" "nat (- j)"] by (simp add: str_int_def)
  next
    assume "\<not> i < 0" "\<not> j < 0"
    then show ?thesis using eq str_nat_inj[of "nat i" "nat j"] by (simp add: str_int_def)
  qed
qed

lemma generated_name_inj: "generated_name name i = generated_name name j \<Longrightarrow> i = j"
  by (simp add: generated_name_def str_int_inj)

lemma generated_name_neq: "generated_name name i \<noteq> name"
  by (simp add: generated_name_def)

lemma private_unregister_name_Some:
  "reg n = Some c \<Longrightarrow> private_unregister_name reg n = Inr (reg(n := uncount c))"
  by (auto simp: private_unregister_name_def uncount_def fun_eq_iff)

lemma unregister_name_key:
  "reg n = Some c \<Longrightarrow> unregister_name reg n = Inr (reg(n := uncount c))"
  by (simp add: unregister_name_def private_unregister_name_Some)

lemma register_loop_unfold_free:
  "reg name = Some k \<Longrightarrow> reg (generated_name name k) = None \<Longrightarrow>
     register_loop reg name = Some (Inr (reg(name \<mapsto> k + 1), generated_name name k))"
  by (subst register_loop.simps) (simp add: generated_name_neq)

lemma register_loop_unfold_collision:
  "reg name = Some k \<Longrightarrow> reg (generated_name name k) = Some c \<Longrightarrow>
     register_loop reg name =
       register_loop ((reg(name \<mapsto> k + 1))(generated_name name k := uncount c)) name"
  by (subst register_loop.simps)
    (simp add: generated_name_neq unregister_name_key)

lemma loop_result_free:
  assumes "reg name = Some k" and "reg (generated_name name k) = None"
  shows "loop_result reg name k (reg(name \<mapsto> k + 1)) k"
  using assms by (auto simp: loop_result_def)

lemma loop_result_collision:
  assumes k: "reg name = Some k" and c: "reg (generated_name name k) = Some c"
    and r: "loop_result ((reg(name \<mapsto> k + 1))(generated_name name k := uncount c)) name (k + 1) reg' j"
  shows "loop_result reg name k reg' j"
proof -
  let ?g = "generated_name name"
  let ?reg2 = "(reg(name \<mapsto> k + 1))(?g k := uncount c)"
  have r2: "?reg2 n = reg n" if "n \<noteq> name" "n \<noteq> ?g k" for n using that by simp
  have gk: "?g i \<noteq> ?g k" if "i \<noteq> k" for i using that generated_name_inj by blast
  have gn: "?g i \<noteq> name" for i by (rule generated_name_neq)
  have r2g: "?reg2 (?g i) = reg (?g i)" if "i \<noteq> k" for i
    using r2[OF gn gk[OF that]] .
  have kj: "k + 1 \<le> j" and free: "?reg2 (?g j) = None"
    and coll: "\<And>i. k + 1 \<le> i \<Longrightarrow> i < j \<Longrightarrow> ?reg2 (?g i) \<noteq> None"
    and cnt: "reg' name = Some (j + 1)"
    and unc: "\<And>i. k + 1 \<le> i \<Longrightarrow> i < j \<Longrightarrow> reg' (?g i) = Option.bind (?reg2 (?g i)) uncount"
    and oth: "\<And>n. n \<noteq> name \<Longrightarrow> (\<forall>i. k + 1 \<le> i \<and> i < j \<longrightarrow> n \<noteq> ?g i) \<Longrightarrow> reg' n = ?reg2 n"
    using r unfolding loop_result_def by blast+
  show ?thesis unfolding loop_result_def
  proof (intro conjI allI impI)
    show "k \<le> j" using kj by simp
    show "reg (?g j) = None" using free r2g[of j] kj by simp
    show "reg' name = Some (j + 1)" by (rule cnt)
  next
    fix i assume i: "k \<le> i \<and> i < j"
    show "reg (?g i) \<noteq> None"
    proof (cases "i = k")
      case True then show ?thesis using c by simp
    next
      case False
      then show ?thesis using coll[of i] i r2g[of i] by simp
    qed
  next
    fix i assume i: "k \<le> i \<and> i < j"
    show "reg' (?g i) = Option.bind (reg (?g i)) uncount"
    proof (cases "i = k")
      case True
      have "\<forall>i'. k + 1 \<le> i' \<and> i' < j \<longrightarrow> ?g k \<noteq> ?g i'"
        by (auto dest: generated_name_inj)
      then have "reg' (?g k) = ?reg2 (?g k)" using oth[OF gn] by blast
      then show ?thesis using True c by simp
    next
      case False
      then show ?thesis using unc[of i] i r2g[of i] by simp
    qed
  next
    fix n assume n: "n \<noteq> name \<and> (\<forall>i. k \<le> i \<and> i < j \<longrightarrow> n \<noteq> ?g i)"
    then have "n \<noteq> ?g k" using kj by auto
    moreover have "reg' n = ?reg2 n" using oth[of n] n by auto
    ultimately show "reg' n = reg n" using n r2 by simp
  qed
qed

lemma register_loop_result:
  assumes run: "register_loop reg name = Some r"
  shows "\<forall>k. reg name = Some k \<longrightarrow>
           (\<exists>reg' j. r = Inr (reg', generated_name name j) \<and> loop_result reg name k reg' j)"
proof -
  define Q :: "registry \<Rightarrow> string \<Rightarrow> reg_error + registry \<times> string \<Rightarrow> bool" where
    "Q = (\<lambda>reg name r. \<forall>k. reg name = Some k \<longrightarrow>
           (\<exists>reg' j. r = Inr (reg', generated_name name j) \<and> loop_result reg name k reg' j))"
  have "Q reg name r"
  proof (rule register_loop.raw_induct[where P = Q, OF _ run])
    fix f :: "registry \<Rightarrow> string \<Rightarrow> (reg_error + registry \<times> string) option"
      and reg name r
    assume IH: "\<And>reg name y. f reg name = Some y \<Longrightarrow> Q reg name y"
      and body: "(case reg name of
        None \<Rightarrow> Some (Inl MissingKey)
      | Some cnt \<Rightarrow>
          (let new_name = generated_name name cnt;
               reg1 = reg(name \<mapsto> cnt + 1)
           in if reg1 new_name \<noteq> None
              then (case unregister_name reg1 new_name of
                      Inl e \<Rightarrow> Some (Inl e)
                    | Inr reg2 \<Rightarrow> f reg2 name)
              else Some (Inr (reg1, new_name)))) = Some r"
    show "Q reg name r" unfolding Q_def
    proof (intro allI impI)
      fix k assume k: "reg name = Some k"
      show "\<exists>reg' j. r = Inr (reg', generated_name name j) \<and> loop_result reg name k reg' j"
      proof (cases "reg (generated_name name k)")
        case None
        then have "r = Inr (reg(name \<mapsto> k + 1), generated_name name k)"
          using body k by (simp add: generated_name_neq)
        then show ?thesis using loop_result_free[OF k None] by blast
      next
        case (Some c)
        let ?reg2 = "(reg(name \<mapsto> k + 1))(generated_name name k := uncount c)"
        have "f ?reg2 name = Some r"
          using body k Some by (simp add: generated_name_neq unregister_name_key)
        then have "Q ?reg2 name r" by (rule IH)
        moreover have "?reg2 name = Some (k + 1)" by (simp add: generated_name_neq[symmetric])
        ultimately obtain reg' j where
          "r = Inr (reg', generated_name name j)" "loop_result ?reg2 name (k + 1) reg' j"
          unfolding Q_def by blast
        then show ?thesis using loop_result_collision[OF k Some] by blast
      qed
    qed
  qed
  then show ?thesis by (simp add: Q_def)
qed

lemma finite_colliders:
  assumes "finite (dom reg)"
  shows "finite {i. k \<le> i \<and> reg (generated_name name i) \<noteq> None}"
proof -
  have "inj (generated_name name)" by (simp add: inj_def generated_name_inj)
  then have "finite (generated_name name -` dom reg)" using assms by (simp add: finite_vimageI)
  moreover have "{i. k \<le> i \<and> reg (generated_name name i) \<noteq> None} \<subseteq> generated_name name -` dom reg"
    by auto
  ultimately show ?thesis by (rule rev_finite_subset)
qed

lemma register_loop_terminates:
  assumes "finite (dom reg)" and "reg name = Some k"
  shows "\<exists>r. register_loop reg name = Some r"
  using assms
proof (induction "card {i. k \<le> i \<and> reg (generated_name name i) \<noteq> None}"
    arbitrary: reg k rule: less_induct)
  case less
  let ?g = "generated_name name"
  show ?case
  proof (cases "reg (?g k)")
    case None
    then show ?thesis using register_loop_unfold_free[of reg name k] less.prems(2) by simp
  next
    case (Some c)
    let ?reg2 = "(reg(name \<mapsto> k + 1))(?g k := uncount c)"
    have "dom ?reg2 \<subseteq> insert name (insert (?g k) (dom reg))" by (auto split: if_splits)
    then have fin2: "finite (dom ?reg2)" using less.prems(1) by (simp add: finite_subset)
    have k2: "?reg2 name = Some (k + 1)" by (simp add: generated_name_neq[symmetric])
    have sub: "{i. k + 1 \<le> i \<and> ?reg2 (?g i) \<noteq> None} \<subseteq> {i. k \<le> i \<and> reg (?g i) \<noteq> None} - {k}"
      using generated_name_neq[of name] by (auto split: if_splits dest: generated_name_inj)
    have "k \<in> {i. k \<le> i \<and> reg (?g i) \<noteq> None}" using Some by simp
    then have "{i. k + 1 \<le> i \<and> ?reg2 (?g i) \<noteq> None} \<subset> {i. k \<le> i \<and> reg (?g i) \<noteq> None}"
      using sub by blast
    then have "card {i. k + 1 \<le> i \<and> ?reg2 (?g i) \<noteq> None} < card {i. k \<le> i \<and> reg (?g i) \<noteq> None}"
      using finite_colliders[OF less.prems(1)] by (simp add: psubset_card_mono)
    then have "\<exists>r. register_loop ?reg2 name = Some r" using fin2 k2 by (rule less.hyps)
    moreover have "register_loop reg name = register_loop ?reg2 name"
      using less.prems(2) Some by (rule register_loop_unfold_collision[of reg name k c])
    ultimately show ?thesis by (simp only:)
  qed
qed

lemma register_name_fresh:
  "reg name = None \<Longrightarrow> register_name reg name = Some (Inr (reg(name \<mapsto> 1), name))"
  by (simp add: register_name_def)

lemma register_name_key:
  "reg name = Some k \<Longrightarrow> register_name reg name = register_loop reg name"
  by (simp add: register_name_def)

text \<open>
  Claim C4, as amended.  A fresh name is registered with count 1 and returned unchanged.
  For a name that is a key of count \<open>k\<close>, \<open>register_name\<close> generates \<open>name_k\<close> and
  increments the count; as long as the generated name is itself a key, that key is
  unregistered once and the next name is generated with the count incremented again.
  The name returned is \<open>name_j\<close> for the first \<open>j\<close> from \<open>k\<close> on that is not a key, and
  the count becomes \<open>j + 1\<close>.  On a finite registry the loop ends.
\<close>

theorem register_name_first_free_name:
  "(reg name = None \<longrightarrow> register_name reg name = Some (Inr (reg(name \<mapsto> 1), name))) \<and>
   (\<forall>k. reg name = Some k \<and> reg (generated_name name k) = None \<longrightarrow>
      register_name reg name = Some (Inr (reg(name \<mapsto> k + 1), generated_name name k))) \<and>
   (\<forall>k. finite (dom reg) \<and> reg name = Some k \<longrightarrow>
      (\<exists>reg' j. register_name reg name = Some (Inr (reg', generated_name name j)) \<and>
         k \<le> j \<and> reg (generated_name name j) = None \<and>
         (\<forall>i. k \<le> i \<and> i < j \<longrightarrow> reg (generated_name name i) \<noteq> None) \<and>
         reg' name = Some (j + 1) \<and>
         (\<forall>i. k \<le> i \<and> i < j \<longrightarrow>
            reg' (generated_name name i) = Option.bind (reg (generated_name name i)) uncount) \<and>
         (\<forall>n. n \<noteq> name \<and> (\<forall>i. k \<le> i \<and> i < j \<longrightarrow> n \<noteq> generated_name name i) \<longrightarrow>
            reg' n = reg n)))"
proof (intro conjI allI impI)
  assume "reg name = None"
  then show "register_name reg name = Some (Inr (reg(name \<mapsto> 1), name))"
    by (rule register_name_fresh)
next
  fix k assume a: "reg name = Some k \<and> reg (generated_name name k) = None"
  then have "register_loop reg name = Some (Inr (reg(name \<mapsto> k + 1), generated_name name k))"
    using register_loop_unfold_free[of reg name k] by simp
  then show "register_name reg name = Some (Inr (reg(name \<mapsto> k + 1), generated_name name k))"
    using a register_name_key[of reg name k] by simp
next
  fix k assume a: "finite (dom reg) \<and> reg name = Some k"
  then obtain r where r: "register_loop reg name = Some r"
    using register_loop_terminates[of reg name k] by blast
  then obtain reg' j where "r = Inr (reg', generated_name name j)" "loop_result reg name k reg' j"
    using register_loop_result[OF r] a by blast
  then show "\<exists>reg' j. register_name reg name = Some (Inr (reg', generated_name name j)) \<and>
         k \<le> j \<and> reg (generated_name name j) = None \<and>
         (\<forall>i. k \<le> i \<and> i < j \<longrightarrow> reg (generated_name name i) \<noteq> None) \<and>
         reg' name = Some (j + 1) \<and>
         (\<forall>i. k \<le> i \<and> i < j \<longrightarrow>
            reg' (generated_name name i) = Option.bind (reg (generated_name name i)) uncount) \<and>
         (\<forall>n. n \<noteq> name \<and> (\<forall>i. k \<le> i \<and> i < j \<longrightarrow> n \<noteq> generated_name name i) \<longrightarrow>
            reg' n = reg n)"
    using r a register_name_key[of reg name k] unfolding loop_result_def by auto
qed

lemma colliding_registry_finite: "finite (dom colliding_registry)"
  by (simp add: colliding_registry_def)

lemma colliding_registry_x: "colliding_registry ''x'' = Some 1"
  by (simp add: colliding_registry_def)

lemma colliding_registry_y: "colliding_registry ''y'' = None"
  by (simp add: colliding_registry_def)

lemma generated_name_x_1: "generated_name ''x'' 1 = ''x_1''"
  by code_simp

lemma colliding_registry_run:
  "map_option (map_sum id (\<lambda>(reg', n). (n, map reg' [''x'', ''x_1'', ''x_2''])))
     (register_name colliding_registry ''x'') = Some (Inr (''x_2'', [Some 3, None, None]))"
  by code_simp

theorem register_name_first_free_name_witness:
  "colliding_registry ''y'' = None \<and>
   register_name colliding_registry ''y'' = Some (Inr (colliding_registry(''y'' \<mapsto> 1), ''y'')) \<and>
   finite (dom colliding_registry) \<and> colliding_registry ''x'' = Some 1 \<and>
   (\<exists>reg' j. register_name colliding_registry ''x'' = Some (Inr (reg', generated_name ''x'' j)) \<and>
      1 \<le> j \<and> colliding_registry (generated_name ''x'' j) = None \<and> reg' ''x'' = Some (j + 1))"
proof -
  have "register_name colliding_registry ''y'' = Some (Inr (colliding_registry(''y'' \<mapsto> 1), ''y''))"
    using register_name_first_free_name[of colliding_registry "''y''"] colliding_registry_y
    by blast
  moreover have "\<exists>reg' j. register_name colliding_registry ''x'' =
        Some (Inr (reg', generated_name ''x'' j)) \<and>
      1 \<le> j \<and> colliding_registry (generated_name ''x'' j) = None \<and> reg' ''x'' = Some (j + 1)"
    using register_name_first_free_name[of colliding_registry "''x''"]
      colliding_registry_finite colliding_registry_x by blast
  ultimately show ?thesis
    using colliding_registry_finite colliding_registry_x colliding_registry_y by blast
qed

theorem register_name_collision_counterexample:
  "colliding_registry ''x'' = Some 1 \<and> generated_name ''x'' 1 = ''x_1'' \<and>
   colliding_registry ''x_1'' = Some 1 \<and>
   (\<forall>reg'. register_name colliding_registry ''x'' \<noteq> Some (Inr (reg', generated_name ''x'' 1))) \<and>
   map_option (map_sum id (\<lambda>(reg', n). (n, map reg' [''x'', ''x_1'', ''x_2''])))
     (register_name colliding_registry ''x'') = Some (Inr (''x_2'', [Some 3, None, None]))"
proof -
  have "register_name colliding_registry ''x'' \<noteq> Some (Inr (reg', generated_name ''x'' 1))" for reg'
  proof
    assume a: "register_name colliding_registry ''x'' = Some (Inr (reg', generated_name ''x'' 1))"
    have "''x_1'' = ''x_2''"
      using colliding_registry_run unfolding a by (simp add: generated_name_x_1)
    then show False by simp
  qed
  then show ?thesis
    using colliding_registry_run colliding_registry_x generated_name_x_1
    by (simp add: colliding_registry_def)
qed

text \<open>
  Claim C6.  With an empty registry, \<open>x_1\<close> is not a key and its basename \<open>x\<close> is not a
  key, and \<open>unregister_name\<close> returns without an error and without a change, where its
  documentation announces \<open>NameError\<close>.
\<close>

theorem unregister_name_unknown_indexed_name:
  "unregister_name Map.empty ''x_1'' = Inr Map.empty \<and>
   has_index_format ''x_1'' \<and> get_name_attrs ''x_1'' = (''x'', 1) \<and>
   unregister_name Map.empty ''x'' = Inl NameError"
proof -
  have f: "has_index_format ''x_1''" by code_simp
  have g: "get_name_attrs ''x_1'' = (''x'', 1)" by code_simp
  have h: "\<not> has_index_format ''x''" by code_simp
  show ?thesis using f g h by (simp add: unregister_name_def)
qed

lemma after_register_Cons_fresh:
  assumes "reg n = None"
  shows "after_register (reg(n \<mapsto> 1)) ns = after_register reg (n # ns)"
  using assms by (auto simp: after_register_def fun_eq_iff count_list_0_iff)

lemma after_register_Cons_key:
  assumes "reg n = Some k"
  shows "after_register (reg(n \<mapsto> k + 1)) ns = after_register reg (n # ns)"
  using assms by (auto simp: after_register_def fun_eq_iff count_list_0_iff)

lemma register_all_collision_free:
  "collision_free reg names \<Longrightarrow> register_all reg names = Some (Inr (after_register reg names))"
proof (induction names arbitrary: reg)
  case Nil
  show ?case by (simp add: after_register_def)
next
  case (Cons n ns)
  show ?case
  proof (cases "reg n")
    case None
    then have "collision_free (reg(n \<mapsto> 1)) ns" using Cons.prems by simp
    then have "register_all (reg(n \<mapsto> 1)) ns = Some (Inr (after_register (reg(n \<mapsto> 1)) ns))"
      by (rule Cons.IH)
    then show ?thesis
      using None by (simp add: register_name_fresh after_register_Cons_fresh)
  next
    case (Some k)
    then have free: "reg (generated_name n k) = None"
      and cf: "collision_free (reg(n \<mapsto> k + 1)) ns" using Cons.prems by simp_all
    have "register_name reg n = Some (Inr (reg(n \<mapsto> k + 1), generated_name n k))"
      using register_loop_unfold_free[of reg n k] Some free register_name_key[of reg n k] by simp
    moreover have "register_all (reg(n \<mapsto> k + 1)) ns =
        Some (Inr (after_register (reg(n \<mapsto> k + 1)) ns))"
      using cf by (rule Cons.IH)
    ultimately show ?thesis using Some by (simp add: after_register_Cons_key)
  qed
qed

lemma unregister_all_counts:
  assumes "\<forall>n \<in> set names. \<exists>k. reg n = Some k \<and> int (count_list names n) \<le> k"
  shows "unregister_all reg names =
           Inr (\<lambda>n. if n \<in> set names
                    then (if the (reg n) = int (count_list names n) then None
                          else Some (the (reg n) - int (count_list names n)))
                    else reg n)"
  using assms
proof (induction names arbitrary: reg)
  case Nil
  show ?case by simp
next
  case (Cons n ns)
  from Cons.prems obtain c where c: "reg n = Some c" "int (count_list (n # ns) n) \<le> c"
    by auto
  let ?reg' = "reg(n := uncount c)"
  have un: "unregister_name reg n = Inr ?reg'"
    using c(1) by (rule unregister_name_key[of reg n c])
  have pre: "\<forall>m \<in> set ns. \<exists>k. ?reg' m = Some k \<and> int (count_list ns m) \<le> k"
  proof
    fix m assume m: "m \<in> set ns"
    show "\<exists>k. ?reg' m = Some k \<and> int (count_list ns m) \<le> k"
    proof (cases "m = n")
      case True
      have "0 < count_list ns n" using m True count_list_0_iff[of ns n] by auto
      then have "2 \<le> c" using c(2) by simp
      then show ?thesis using True c(2) by (simp add: uncount_def)
    next
      case False
      then show ?thesis using Cons.prems m by auto
    qed
  qed
  have "unregister_all reg (n # ns) = unregister_all ?reg' ns" using un by simp
  also have "\<dots> = Inr (\<lambda>m. if m \<in> set ns
                    then (if the (?reg' m) = int (count_list ns m) then None
                          else Some (the (?reg' m) - int (count_list ns m)))
                    else ?reg' m)"
    by (rule Cons.IH[OF pre])
  also have "(\<lambda>m. if m \<in> set ns
                    then (if the (?reg' m) = int (count_list ns m) then None
                          else Some (the (?reg' m) - int (count_list ns m)))
                    else ?reg' m) =
      (\<lambda>m. if m \<in> set (n # ns)
                    then (if the (reg m) = int (count_list (n # ns) m) then None
                          else Some (the (reg m) - int (count_list (n # ns) m)))
                    else reg m)"
  proof (rule ext)
    fix m
    show "(if m \<in> set ns
                    then (if the (?reg' m) = int (count_list ns m) then None
                          else Some (the (?reg' m) - int (count_list ns m)))
                    else ?reg' m) =
      (if m \<in> set (n # ns)
                    then (if the (reg m) = int (count_list (n # ns) m) then None
                          else Some (the (reg m) - int (count_list (n # ns) m)))
                    else reg m)"
    proof (cases "m = n")
      case False
      then show ?thesis by simp
    next
      case True
      show ?thesis
      proof (cases "n \<in> set ns")
        case in_ns: True
        then have "0 < count_list ns n" using count_list_0_iff[of ns n] by auto
        then have "2 \<le> c" using c(2) by simp
        then show ?thesis using True in_ns c by (simp add: uncount_def)
      next
        case not_ns: False
        then have "count_list ns n = 0" by (simp add: count_list_0_iff)
        then show ?thesis using True not_ns c by (auto simp: uncount_def)
      qed
    qed
  qed
  finally show ?case .
qed

text \<open>
  Claim C5, as amended.  On a registry whose counts are all at least 1, registering the
  names of a list in order and then unregistering the same names in order restores the
  registry, provided no registration of the list generates a name that is already a key.
\<close>

theorem register_unregister_round_trip:
  assumes pos: "positive_counts reg" and cf: "collision_free reg names"
  shows "round_trip reg names = Some (Inr reg)"
proof -
  let ?reg' = "after_register reg names"
  have reg_all: "register_all reg names = Some (Inr ?reg')"
    by (rule register_all_collision_free[OF cf])
  have pre: "\<forall>n \<in> set names. \<exists>k. ?reg' n = Some k \<and> int (count_list names n) \<le> k"
  proof
    fix n assume n: "n \<in> set names"
    show "\<exists>k. ?reg' n = Some k \<and> int (count_list names n) \<le> k"
    proof (cases "reg n")
      case None
      then show ?thesis using n by (simp add: after_register_def)
    next
      case (Some k)
      then have "1 \<le> k" using pos unfolding positive_counts_def by blast
      then show ?thesis using n Some by (simp add: after_register_def)
    qed
  qed
  have "(\<lambda>n. if n \<in> set names
                    then (if the (?reg' n) = int (count_list names n) then None
                          else Some (the (?reg' n) - int (count_list names n)))
                    else ?reg' n) = reg"
  proof (rule ext)
    fix n
    show "(if n \<in> set names
                    then (if the (?reg' n) = int (count_list names n) then None
                          else Some (the (?reg' n) - int (count_list names n)))
                    else ?reg' n) = reg n"
    proof (cases "reg n")
      case None
      then show ?thesis by (simp add: after_register_def)
    next
      case (Some k)
      then have "1 \<le> k" using pos unfolding positive_counts_def by blast
      then show ?thesis using Some by (simp add: after_register_def)
    qed
  qed
  then have "unregister_all ?reg' names = Inr reg"
    using unregister_all_counts[OF pre] by simp
  then show ?thesis using reg_all by (simp add: round_trip_def)
qed

lemma example_registry_positive: "positive_counts [''x'' \<mapsto> 1]"
  by (auto simp: positive_counts_def split: if_splits)

lemma example_registry_collision_free: "collision_free [''x'' \<mapsto> 1] [''x'', ''y'', ''x'']"
  by code_simp

theorem register_unregister_round_trip_witness:
  "positive_counts [''x'' \<mapsto> 1] \<and> collision_free [''x'' \<mapsto> 1] [''x'', ''y'', ''x''] \<and>
   round_trip [''x'' \<mapsto> 1] [''x'', ''y'', ''x''] = Some (Inr [''x'' \<mapsto> 1])"
  using register_unregister_round_trip[OF example_registry_positive example_registry_collision_free]
    example_registry_positive example_registry_collision_free
  by blast

lemma colliding_registry_round_trip:
  "map_option (map_sum id (\<lambda>reg'. map reg' [''x'', ''x_1'']))
     (round_trip colliding_registry [''x'']) = Some (Inr [Some 2, None])"
  by code_simp

lemma colliding_registry_reached:
  "register_all Map.empty [''x_1'', ''x''] = Some (Inr (map_of [(''x'', 1), (''x_1'', 1)]))"
  by (simp add: register_name_def fun_eq_iff)

theorem round_trip_counterexample:
  "positive_counts colliding_registry \<and>
   round_trip colliding_registry [''x''] \<noteq> Some (Inr colliding_registry) \<and>
   map colliding_registry [''x'', ''x_1''] = [Some 1, Some 1] \<and>
   map_option (map_sum id (\<lambda>reg'. map reg' [''x'', ''x_1'']))
     (round_trip colliding_registry [''x'']) = Some (Inr [Some 2, None])"
proof -
  have p: "positive_counts colliding_registry"
    by (auto simp: positive_counts_def colliding_registry_def split: if_splits)
  have m: "map colliding_registry [''x'', ''x_1''] = [Some 1, Some 1]"
    by (simp add: colliding_registry_def)
  have "round_trip colliding_registry [''x''] \<noteq> Some (Inr colliding_registry)"
  proof
    assume a: "round_trip colliding_registry [''x''] = Some (Inr colliding_registry)"
    show False using colliding_registry_round_trip m unfolding a by simp
  qed
  then show ?thesis using p m colliding_registry_round_trip by blast
qed

section \<open>Properties of the property store\<close>

lemma str_nat_head:
  "1 \<le> n \<Longrightarrow> \<exists>c cs. str_nat n = c # cs \<and> is_digit c \<and> c \<noteq> CHR ''0''"
proof (induction n rule: str_nat.induct)
  case (1 n)
  show ?case
  proof (cases "n < 10")
    case True
    have "digit_char n \<noteq> CHR ''0''"
    proof
      assume "digit_char n = CHR ''0''"
      then have "digit_val (digit_char n) = digit_val (CHR ''0'')" by simp
      then show False using True "1.prems" by (simp add: digit_val_digit_char) (simp add: digit_val_def)
    qed
    then show ?thesis using True
      by (subst str_nat.simps) (simp add: is_digit_digit_char)
  next
    case False
    then have "1 \<le> n div 10" by simp
    from "1.IH"[OF False this] obtain c cs where
      "str_nat (n div 10) = c # cs" "is_digit c" "c \<noteq> CHR ''0''" by blast
    then show ?thesis using False by (subst str_nat.simps) simp
  qed
qed

lemma str_int_no_underscore: "CHR ''_'' \<notin> set (str_int i)"
proof
  assume "CHR ''_'' \<in> set (str_int i)"
  then have "CHR ''_'' = CHR ''-'' \<or> is_digit (CHR ''_'')"
    using str_nat_digits by (auto simp: str_int_def split: if_splits)
  then show False using underscore_not_digit by simp
qed

lemma after_last_underscore_append:
  "CHR ''_'' \<notin> set ds \<Longrightarrow> after_last_underscore (p @ ''_'' @ ds) = ds"
proof -
  assume a: "CHR ''_'' \<notin> set ds"
  have "takeWhile (\<lambda>c. c \<noteq> CHR ''_'') (rev ds @ CHR ''_'' # rev p) =
      rev ds @ takeWhile (\<lambda>c. c \<noteq> CHR ''_'') (CHR ''_'' # rev p)"
    by (rule takeWhile_append2) (use a in auto)
  then show ?thesis by (simp add: after_last_underscore_def)
qed

lemma after_last_underscore_generated_key:
  "after_last_underscore (generated_key kind i) = str_int i"
  unfolding generated_key_def by (rule after_last_underscore_append[OF str_int_no_underscore])

lemma digit_not_space: "is_digit c \<Longrightarrow> \<not> is_space c"
  by (auto simp: is_digit_def is_space_def)

lemma strip_digits:
  assumes "ds \<noteq> []" and "\<forall>c \<in> set ds. is_digit c"
  shows "strip ds = ds"
proof -
  obtain c cs where ds: "ds = c # cs" using assms(1) by (cases ds) auto
  then have "\<not> is_space c" using assms(2) digit_not_space by simp
  then have d1: "dropWhile is_space ds = ds" using ds by simp
  have "rev ds \<noteq> []" using assms(1) by simp
  then obtain e es where r: "rev ds = e # es" by (cases "rev ds") auto
  then have "e \<in> set ds" by (metis list.set_intros(1) set_rev)
  then have "\<not> is_space e" using assms(2) digit_not_space by simp
  then have "dropWhile is_space (rev ds) = rev ds" using r by simp
  then show ?thesis using d1 by (simp add: strip_def)
qed

lemma py_int_str_nat: "py_int (str_nat n) = Some (int n)"
proof -
  have dg: "\<forall>c \<in> set (str_nat n). is_digit c" using str_nat_digits by blast
  have st: "strip (str_nat n) = str_nat n" by (rule strip_digits[OF str_nat_nonempty dg])
  obtain c cs where cs: "str_nat n = c # cs" using str_nat_nonempty[of n] by (cases "str_nat n") auto
  then have "is_digit c" using dg by simp
  then have "c \<noteq> CHR ''-''" "c \<noteq> CHR ''+''" by (auto simp: is_digit_def)
  moreover have "digits_value (str_nat n) = Some (int n)"
    using dg str_nat_nonempty[of n] by (simp add: digits_value_def list_all_iff int_of_digits_str_nat)
  ultimately show ?thesis using st cs by (simp add: py_int_def)
qed

lemma key_index_generated_key:
  "0 \<le> i \<Longrightarrow> py_int (after_last_underscore (generated_key kind i)) = Some i"
  by (simp add: after_last_underscore_generated_key str_int_def py_int_str_nat)

lemma matches_generated_key_generated:
  assumes "1 \<le> i"
  shows "matches_generated_key kind (generated_key kind i)"
proof -
  have "1 \<le> nat i" using assms by simp
  from str_nat_head[OF this] obtain c cs where
    "str_nat (nat i) = c # cs" "is_digit c" "c \<noteq> CHR ''0''" by blast
  then show ?thesis using assms
    by (simp add: matches_generated_key_def generated_key_def str_int_def Let_def nth_append)
qed

lemma generated_key_inj: "generated_key kind i = generated_key kind j \<Longrightarrow> i = j"
  by (simp add: generated_key_def str_int_inj)

lemma setitem_generated:
  assumes "within_method st" and "is_order_invariant st"
    and "check_value_type (prop_name st) v" and "1 \<le> i" and "i \<le> key_gen_count st"
  shows "setitem st (generated_key (prop_name st) i) v =
           (None, st\<lparr>entries := (entries st)(generated_key (prop_name st) i \<mapsto> v)\<rparr>)"
  using assms
  by (simp add: setitem_def check_for_key_generated_format_def
      matches_generated_key_generated key_index_generated_key)

lemma setitem_type_error:
  "within_method st \<Longrightarrow> \<not> check_value_type (prop_name st) v \<Longrightarrow>
     setitem st key v = (Some PropTypeError, st)"
  by (simp add: setitem_def)

lemma store_next_inv:
  assumes inv: "prop_inv st" and v: "check_value_type (prop_name st) v"
  shows "prop_inv (st\<lparr>entries := (entries st)(generated_key (prop_name st) (key_gen_count st) \<mapsto> v),
                      key_gen_count := key_gen_count st + 1\<rparr>)"
proof -
  let ?g = "generated_key (prop_name st)"
  let ?st' = "st\<lparr>entries := (entries st)(?g (key_gen_count st) \<mapsto> v),
                      key_gen_count := key_gen_count st + 1\<rparr>"
  have c: "1 \<le> key_gen_count st"
    and keys: "\<And>key. entries st key \<noteq> None \<longleftrightarrow> (\<exists>i. 1 \<le> i \<and> i < key_gen_count st \<and> key = ?g i)"
    using inv by (simp_all add: prop_inv_def contiguous_def)
  have "contiguous ?st'"
    unfolding contiguous_def
  proof (intro conjI allI)
    show "1 \<le> key_gen_count ?st'" using c by simp
  next
    fix key
    have "entries ?st' key \<noteq> None \<longleftrightarrow> key = ?g (key_gen_count st) \<or> entries st key \<noteq> None"
      by simp
    also have "\<dots> \<longleftrightarrow> key = ?g (key_gen_count st) \<or>
        (\<exists>i. 1 \<le> i \<and> i < key_gen_count st \<and> key = ?g i)"
      using keys by simp
    also have "\<dots> \<longleftrightarrow> (\<exists>i. 1 \<le> i \<and> i < key_gen_count st + 1 \<and> key = ?g i)"
    proof
      assume "key = ?g (key_gen_count st) \<or> (\<exists>i. 1 \<le> i \<and> i < key_gen_count st \<and> key = ?g i)"
      then show "\<exists>i. 1 \<le> i \<and> i < key_gen_count st + 1 \<and> key = ?g i"
      proof
        assume "key = ?g (key_gen_count st)"
        then show ?thesis using c by (intro exI[of _ "key_gen_count st"]) simp
      next
        assume "\<exists>i. 1 \<le> i \<and> i < key_gen_count st \<and> key = ?g i"
        then obtain i where "1 \<le> i" "i < key_gen_count st" "key = ?g i" by blast
        then show ?thesis by (intro exI[of _ i]) simp
      qed
    next
      assume "\<exists>i. 1 \<le> i \<and> i < key_gen_count st + 1 \<and> key = ?g i"
      then obtain i where i: "1 \<le> i" "i < key_gen_count st + 1" "key = ?g i" by blast
      show "key = ?g (key_gen_count st) \<or> (\<exists>i. 1 \<le> i \<and> i < key_gen_count st \<and> key = ?g i)"
      proof (cases "i = key_gen_count st")
        case True then show ?thesis using i by simp
      next
        case False
        then have "i < key_gen_count st" using i by simp
        then show ?thesis using i by blast
      qed
    qed
    finally show "entries ?st' key \<noteq> None \<longleftrightarrow>
        (\<exists>i. 1 \<le> i \<and> i < key_gen_count ?st' \<and> key = generated_key (prop_name ?st') i)"
      by simp
  qed
  moreover have "well_typed ?st'"
    using inv v by (auto simp: prop_inv_def well_typed_def)
  moreover have "is_order_invariant ?st'" using inv by (simp add: prop_inv_def)
  ultimately show ?thesis by (simp add: prop_inv_def)
qed

lemma add_values_inv:
  "prop_inv st \<Longrightarrow> within_method st \<Longrightarrow>
     prop_inv (snd (add_values st vs)) \<and> prop_name (snd (add_values st vs)) = prop_name st"
proof (induction vs arbitrary: st)
  case Nil
  then show ?case by simp
next
  case (Cons v vs)
  show ?case
  proof (cases "check_value_type (prop_name st) v")
    case False
    then show ?thesis using Cons.prems by (simp add: setitem_type_error)
  next
    case True
    let ?k = "generated_key (prop_name st) (key_gen_count st)"
    let ?st' = "st\<lparr>entries := (entries st)(?k \<mapsto> v), key_gen_count := key_gen_count st + 1\<rparr>"
    have c: "1 \<le> key_gen_count st" and oi: "is_order_invariant st"
      using Cons.prems(1) by (simp_all add: prop_inv_def contiguous_def)
    have s: "setitem st ?k v = (None, st\<lparr>entries := (entries st)(?k \<mapsto> v)\<rparr>)"
      by (rule setitem_generated[OF Cons.prems(2) oi True c]) simp
    have "add_values st (v # vs) = add_values ?st' vs" using s by simp
    moreover have "prop_inv ?st'" by (rule store_next_inv[OF Cons.prems(1) True])
    moreover have "within_method ?st'" using Cons.prems(2) by simp
    ultimately show ?thesis using Cons.IH[of ?st'] by simp
  qed
qed

lemma prop_inv_within [simp]: "prop_inv (st\<lparr>within_method := b\<rparr>) = prop_inv st"
  by (simp add: prop_inv_def contiguous_def well_typed_def)

lemma add_inv:
  assumes "prop_inv st"
  shows "prop_inv (snd (add st args kwargs))"
proof -
  let ?st0 = "st\<lparr>within_method := True\<rparr>"
  have oi: "is_order_invariant ?st0" using assms by (simp add: prop_inv_def)
  have "prop_inv (snd (add_values ?st0 args))"
    using add_values_inv[of ?st0 args] assms by simp
  then show ?thesis using oi
    by (cases "add_values ?st0 args") (auto simp: add_def split: option.splits)
qed

lemma fold_upd_dom:
  "dom (fold (\<lambda>(k, v) m. m(k \<mapsto> v)) es m) = dom m \<union> fst ` set es"
  by (induction es arbitrary: m) auto

lemma fold_upd_pred:
  assumes "\<And>k v. m k = Some v \<Longrightarrow> P v" and "\<And>k v. (k, v) \<in> set es \<Longrightarrow> P v"
    and "fold (\<lambda>(k, v) m. m(k \<mapsto> v)) es m key = Some w"
  shows "P w"
  using assms
proof (induction es arbitrary: m)
  case Nil
  then show ?case by simp
next
  case (Cons e es)
  obtain k v where e: "e = (k, v)" by (cases e)
  have "fold (\<lambda>(k, v) m. m(k \<mapsto> v)) es (m(k \<mapsto> v)) key = Some w"
    using Cons.prems(3) unfolding e by (simp del: fun_upd_apply)
  moreover have "\<And>k' v'. (m(k \<mapsto> v)) k' = Some v' \<Longrightarrow> P v'"
    using Cons.prems(1,2) e by (auto split: if_splits)
  moreover have "\<And>k' v'. (k', v') \<in> set es \<Longrightarrow> P v'" using Cons.prems(2) by auto
  ultimately show ?case using Cons.IH[of "m(k \<mapsto> v)"] by blast
qed

lemma new_prop_entries_map:
  assumes "\<forall>j \<in> set js. entries st (generated_key (prop_name st) (j + 1)) \<noteq> None"
  shows "new_prop_entries st js =
           Some (map (\<lambda>j. (generated_key (prop_name st) j,
                           the (entries st (generated_key (prop_name st) (j + 1))))) js)"
  using assms by (induction js) auto

lemma private_update_present:
  assumes "\<forall>(k, v) \<in> set es. entries st k \<noteq> None"
  shows "private_update st es =
           (None, st\<lparr>entries := fold (\<lambda>(key, v) m. m(key \<mapsto> v)) es (entries st)\<rparr>)"
  using assms by (simp add: private_update_def list_all_iff)

lemma update_present:
  assumes "\<forall>(k, v) \<in> set es. entries st k \<noteq> None"
  shows "update st (Some es) [] =
           (None, st\<lparr>entries := fold (\<lambda>(key, v) m. m(key \<mapsto> v)) es (entries st)\<rparr>)"
  using private_update_present[OF assms] by (simp add: update_def private_update_def)

lemma delitem_present:
  assumes inv: "prop_inv st" and w: "within_method st" and key: "entries st key = Some v0"
  shows "\<exists>st'. delitem st key = (None, st') \<and> prop_inv st' \<and> within_method st' \<and>
           key_gen_count st' = key_gen_count st - 1 \<and> prop_name st' = prop_name st"
proof -
  define kind where "kind = prop_name st"
  define g where "g = generated_key kind"
  define n where "n = key_gen_count st - 1"
  have oi: "is_order_invariant st" and wt: "well_typed st"
    and keys: "\<And>k. entries st k \<noteq> None \<longleftrightarrow> (\<exists>i. 1 \<le> i \<and> i < n + 1 \<and> k = g i)"
    using inv by (simp_all add: prop_inv_def contiguous_def n_def g_def kind_def)
  have ginj: "\<And>a b. g a = g b \<Longrightarrow> a = b" unfolding g_def by (rule generated_key_inj)
  obtain i where i: "1 \<le> i" "i \<le> n" "key = g i" using keys[of key] key by auto
  have present: "entries st (g j) \<noteq> None" if "1 \<le> j" "j \<le> n" for j
    using keys[of "g j"] that by auto
  have typed: "check_value_type kind v" if "entries st k = Some v" for k v
    using wt that unfolding well_typed_def kind_def by blast
  define st1 where "st1 = st\<lparr>key_gen_count := n, entries := (entries st)(key := None)\<rparr>"
  have st1: "prop_name st1 = kind" "within_method st1" "is_order_invariant st1"
    "key_gen_count st1 = n" "entries st1 = (entries st)(key := None)"
    using w oi by (simp_all add: st1_def kind_def)
  have m: "matches_generated_key (prop_name st) key"
    using matches_generated_key_generated[OF i(1), of kind] i(3) by (simp add: g_def kind_def)
  have d: "delitem st key = shift_values_to_the_left st1 key"
    using w oi m key by (simp add: delitem_def st1_def n_def)
  have ki: "py_int (after_last_underscore key) = Some i"
    using key_index_generated_key[of i kind] i by (simp add: g_def)
  show ?thesis
  proof (cases "i < n")
    case False
    then have in': "i = n" using i by simp
    have res: "delitem st key = (None, st1)"
      using d ki False st1(4) by (simp add: shift_values_to_the_left_def)
    have "contiguous st1"
      unfolding contiguous_def
    proof (intro conjI allI)
      show "1 \<le> key_gen_count st1" using st1(4) i in' by simp
    next
      fix k
      have "entries st1 k \<noteq> None \<longleftrightarrow> k \<noteq> g n \<and> (\<exists>j. 1 \<le> j \<and> j < n + 1 \<and> k = g j)"
        using keys[of k] st1(5) i(3) in' by simp
      also have "\<dots> \<longleftrightarrow> (\<exists>j. 1 \<le> j \<and> j < n \<and> k = g j)"
        using ginj by (metis add.commute less_le zless_add1_eq)
      finally show "entries st1 k \<noteq> None \<longleftrightarrow>
          (\<exists>j. 1 \<le> j \<and> j < key_gen_count st1 \<and> k = generated_key (prop_name st1) j)"
        using st1(1,4) by (simp add: g_def)
    qed
    moreover have "well_typed st1"
      unfolding well_typed_def using typed st1(1,5) by (auto split: if_splits)
    ultimately have "prop_inv st1" using st1(3) by (simp add: prop_inv_def)
    then show ?thesis using res st1 by (simp add: n_def kind_def)
  next
    case True
    define es where "es = map (\<lambda>j. (g j, the (entries st (g (j + 1))))) [i..n - 1]"
    have e1: "entries st1 (g (j + 1)) = entries st (g (j + 1))" if "i \<le> j" for j
      using st1(5) i(3) ginj[of "j + 1" i] that by auto
    have "\<forall>j \<in> set [i..n - 1]. entries st1 (generated_key (prop_name st1) (j + 1)) \<noteq> None"
    proof
      fix j assume "j \<in> set [i..n - 1]"
      then have j: "i \<le> j" "j \<le> n - 1" by simp_all
      then show "entries st1 (generated_key (prop_name st1) (j + 1)) \<noteq> None"
        using e1[OF j(1)] present[of "j + 1"] i(1) st1(1) by (simp add: g_def)
    qed
    from new_prop_entries_map[OF this]
    have "new_prop_entries st1 [i..n - 1] =
        Some (map (\<lambda>j. (g j, the (entries st1 (g (j + 1))))) [i..n - 1])"
      using st1(1) by (simp add: g_def)
    also have "map (\<lambda>j. (g j, the (entries st1 (g (j + 1))))) [i..n - 1] = es"
      unfolding es_def using e1 by (intro map_cong) auto
    finally have ne: "new_prop_entries st1 [i..n - 1] = Some es" .
    obtain v' where v': "entries st (g (i + 1)) = Some v'"
      using present[of "i + 1"] i(1) True by auto
    have upto: "[i..n - 1] = i # [i + 1..n - 1]" using True by (simp add: upto_rec1)
    have mo: "map_of es key = Some v'" unfolding es_def upto using i(3) v' by simp
    have tv': "check_value_type (prop_name st1) v'" using typed[OF v'] st1(1) by simp
    define st2 where "st2 = st1\<lparr>entries := (entries st1)(key \<mapsto> v')\<rparr>"
    have si: "setitem st1 key v' = (None, st2)"
      using setitem_generated[OF st1(2,3) tv' i(1), of ] i(2,3) st1(1,4)
      by (simp add: st2_def g_def)
    have st2: "prop_name st2 = kind" "within_method st2" "key_gen_count st2 = n"
      "entries st2 = (entries st)(key \<mapsto> v')"
      using st1 by (simp_all add: st2_def)
    have dom2: "dom (entries st2) = dom (entries st)" using st2(4) key by auto
    have eskeys: "fst ` set es = g ` {i..n - 1}" unfolding es_def by force
    have esdom: "fst ` set es \<subseteq> dom (entries st)"
    proof
      fix k assume "k \<in> fst ` set es"
      then obtain j where "i \<le> j" "j \<le> n - 1" "k = g j" using eskeys by auto
      then show "k \<in> dom (entries st)" using present[of j] i(1) by auto
    qed
    have "entries st2 k \<noteq> None" if "(k, v) \<in> set es" for k v
    proof -
      have "k \<in> fst ` set es" using that by force
      then have "k \<in> dom (entries st2)" using esdom dom2 by blast
      then show ?thesis by auto
    qed
    then have "\<forall>(k, v) \<in> set es. entries st2 k \<noteq> None" by blast
    define st3 where "st3 = st2\<lparr>entries := fold (\<lambda>(key, v) m. m(key \<mapsto> v)) es (entries st2)\<rparr>"
    from update_present[OF \<open>\<forall>(k, v) \<in> set es. entries st2 k \<noteq> None\<close>]
    have up: "update st2 (Some es) [] = (None, st3)" by (simp add: st3_def)
    have st3: "prop_name st3 = kind" "within_method st3" "key_gen_count st3 = n"
      "is_order_invariant st3"
      using st2 st1(3) by (simp_all add: st3_def st2_def)
    have dom3: "dom (entries st3) = dom (entries st)"
      using fold_upd_dom[of es "entries st2"] dom2 esdom by (auto simp: st3_def)
    have lastp: "entries st3 (g n) \<noteq> None"
      using dom3 present[of n] i True by auto
    define st4 where "st4 = st3\<lparr>entries := (entries st3)(g n := None)\<rparr>"
    have sh: "shift_values_to_the_left st1 key = (None, st4)"
      using ki True st1(4) ne mo si up lastp st3(1,3)
      by (simp add: shift_values_to_the_left_def st4_def g_def Let_def)
    have "contiguous st4"
      unfolding contiguous_def
    proof (intro conjI allI)
      show "1 \<le> key_gen_count st4" using st3(3) i True by (simp add: st4_def)
    next
      fix k
      have "entries st4 k \<noteq> None \<longleftrightarrow> k \<noteq> g n \<and> k \<in> dom (entries st3)"
        by (auto simp: st4_def)
      also have "\<dots> \<longleftrightarrow> k \<noteq> g n \<and> (\<exists>j. 1 \<le> j \<and> j < n + 1 \<and> k = g j)"
        using dom3 keys[of k] by auto
      also have "\<dots> \<longleftrightarrow> (\<exists>j. 1 \<le> j \<and> j < n \<and> k = g j)"
        using ginj by (metis add.commute less_le zless_add1_eq)
      finally show "entries st4 k \<noteq> None \<longleftrightarrow>
          (\<exists>j. 1 \<le> j \<and> j < key_gen_count st4 \<and> k = generated_key (prop_name st4) j)"
        using st3(1,3) by (simp add: st4_def g_def)
    qed
    moreover have "well_typed st4"
      unfolding well_typed_def
    proof (intro allI impI)
      fix k v assume "entries st4 k = Some v"
      then have f: "fold (\<lambda>(key, v) m. m(key \<mapsto> v)) es (entries st2) k = Some v"
        by (auto simp: st4_def st3_def split: if_splits)
      have "check_value_type kind v"
      proof (rule fold_upd_pred[where P = "check_value_type kind", OF _ _ f])
        fix k' w assume "entries st2 k' = Some w"
        then show "check_value_type kind w"
          using st2(4) typed typed[OF v'] by (auto split: if_splits)
      next
        fix k' w assume "(k', w) \<in> set es"
        then obtain j where j: "i \<le> j" "j \<le> n - 1" "w = the (entries st (g (j + 1)))"
          unfolding es_def by auto
        then obtain w' where "entries st (g (j + 1)) = Some w'"
          using present[of "j + 1"] i(1) by auto
        then show "check_value_type kind w" using typed j(3) by simp
      qed
      then show "check_value_type (prop_name st4) v" using st3(1) by (simp add: st4_def)
    qed
    ultimately have "prop_inv st4" using st3(4) by (simp add: prop_inv_def st4_def)
    then show ?thesis using d sh st3 by (simp add: st4_def n_def kind_def)
  qed
qed

lemma pop_absent:
  "entries st key = None \<Longrightarrow> pop st key = (Some PropKeyError, st\<lparr>within_method := True\<rparr>)"
  by (simp add: pop_def)

lemma pop_present:
  assumes inv: "prop_inv st" and key: "entries st key \<noteq> None"
  shows "fst (pop st key) = None \<and> prop_inv (snd (pop st key)) \<and>
         key_gen_count (snd (pop st key)) = key_gen_count st - 1"
proof -
  let ?st0 = "st\<lparr>within_method := True\<rparr>"
  obtain v0 where v0: "entries ?st0 key = Some v0" using key by auto
  have "prop_inv ?st0" "within_method ?st0" using inv by simp_all
  from delitem_present[OF this v0] obtain st' where
    "delitem ?st0 key = (None, st')" "prop_inv st'" "key_gen_count st' = key_gen_count st - 1"
    by auto
  then show ?thesis using v0 by (simp add: pop_def)
qed

lemma pop_inv:
  assumes "prop_inv st"
  shows "prop_inv (snd (pop st key))"
proof (cases "entries st key")
  case None
  then show ?thesis using assms by (simp add: pop_absent)
next
  case (Some v)
  then show ?thesis using pop_present[OF assms, of key] by simp
qed

lemma apply_op_inv: "prop_inv st \<Longrightarrow> prop_inv (apply_op st op)"
  by (cases op) (simp_all add: add_inv pop_inv)

lemma run_ops_inv: "prop_inv st \<Longrightarrow> prop_inv (run_ops st ops)"
  unfolding run_ops_def by (induction ops arbitrary: st) (simp_all add: apply_op_inv)

lemma init_invariant_inv: "prop_inv (init_invariant kind)"
  by (simp add: prop_inv_def contiguous_def well_typed_def init_invariant_def)

lemma example_delete_second:
  "observe_property [''inputs_1'', ''inputs_2'', ''inputs_3'', ''inputs_4'']
     (run_ops (init_invariant Inputs)
        [Add [Component (1::nat), Component 2, Component 3], Pop ''inputs_2'']) =
   (3, False, [Some (Component 1), Some (Component 3), None, None])"
  by code_simp

lemma example_add_after_delete:
  "observe_property [''inputs_1'', ''inputs_2'', ''inputs_3'', ''inputs_4'']
     (run_ops (init_invariant Inputs)
        [Add [Component (1::nat), Component 2, Component 3], Pop ''inputs_2'', Add [Component 4]]) =
   (4, False, [Some (Component 1), Some (Component 3), Some (Component 4), None])"
  by code_simp

text \<open>
  Claim C7.  After any sequence of \<open>add\<close> and \<open>pop\<close> on a new order-invariant property,
  whether the calls succeed or raise, the keys are exactly the generated keys of the
  indices from 1 to the counter, excluded; \<open>pop\<close> of a key that is present succeeds,
  lowers the counter by one and leaves the keys contiguous.  In the example, three values
  are added and the second key is deleted: the first key keeps its value, the second
  holds the value of the third, the counter is 3, and the next value added goes under
  the third key.
\<close>

theorem compaction_invariant:
  "contiguous (run_ops (init_invariant kind) ops) \<and>
   (\<forall>key. entries (run_ops (init_invariant kind) ops) key \<noteq> None \<longrightarrow>
      fst (pop (run_ops (init_invariant kind) ops) key) = None \<and>
      contiguous (snd (pop (run_ops (init_invariant kind) ops) key)) \<and>
      key_gen_count (snd (pop (run_ops (init_invariant kind) ops) key)) =
        key_gen_count (run_ops (init_invariant kind) ops) - 1) \<and>
   observe_property [''inputs_1'', ''inputs_2'', ''inputs_3'', ''inputs_4'']
     (run_ops (init_invariant Inputs)
        [Add [Component (1::nat), Component 2, Component 3], Pop ''inputs_2'']) =
   (3, False, [Some (Component 1), Some (Component 3), None, None]) \<and>
   observe_property [''inputs_1'', ''inputs_2'', ''inputs_3'', ''inputs_4'']
     (run_ops (init_invariant Inputs)
        [Add [Component (1::nat), Component 2, Component 3], Pop ''inputs_2'', Add [Component 4]]) =
   (4, False, [Some (Component 1), Some (Component 3), Some (Component 4), None])"
proof -
  have inv: "prop_inv (run_ops (init_invariant kind) ops)"
    by (rule run_ops_inv[OF init_invariant_inv])
  then have "contiguous (run_ops (init_invariant kind) ops)" by (simp add: prop_inv_def)
  moreover have "\<forall>key. entries (run_ops (init_invariant kind) ops) key \<noteq> None \<longrightarrow>
      fst (pop (run_ops (init_invariant kind) ops) key) = None \<and>
      contiguous (snd (pop (run_ops (init_invariant kind) ops) key)) \<and>
      key_gen_count (snd (pop (run_ops (init_invariant kind) ops) key)) =
        key_gen_count (run_ops (init_invariant kind) ops) - 1"
    using pop_present[OF inv] by (simp add: prop_inv_def)
  ultimately show ?thesis using example_delete_second example_add_after_delete by blast
qed

lemma example_key_present:
  "entries (run_ops (init_invariant Inputs) [Add [Component (1::nat), Component 2, Component 3]])
     ''inputs_2'' = Some (Component 2)"
  by code_simp

theorem compaction_invariant_witness:
  "entries (run_ops (init_invariant Inputs) [Add [Component (1::nat), Component 2, Component 3]])
     ''inputs_2'' \<noteq> None \<and>
   fst (pop (run_ops (init_invariant Inputs) [Add [Component (1::nat), Component 2, Component 3]])
     ''inputs_2'') = None \<and>
   contiguous (snd (pop (run_ops (init_invariant Inputs)
     [Add [Component (1::nat), Component 2, Component 3]]) ''inputs_2'')) \<and>
   key_gen_count (snd (pop (run_ops (init_invariant Inputs)
     [Add [Component (1::nat), Component 2, Component 3]]) ''inputs_2'')) =
   key_gen_count (run_ops (init_invariant Inputs)
     [Add [Component (1::nat), Component 2, Component 3]]) - 1"
  using compaction_invariant[of Inputs "[Add [Component (1::nat), Component 2, Component 3]]"]
    example_key_present
  by simp

lemma setitem_not_scope:
  "within_method st \<Longrightarrow> fst (setitem st key v) \<noteq> Some ScopeViolation"
  by (auto simp: setitem_def check_for_key_generated_format_def
      check_if_key_is_in_defined_variables_def split: option.splits if_splits)

lemma setitem_within:
  "within_method st \<Longrightarrow> within_method (snd (setitem st key v))"
  by (auto simp: setitem_def split: option.splits if_splits)

lemma private_update_not_scope: "fst (private_update st kw) \<noteq> Some ScopeViolation"
  by (simp add: private_update_def)

lemma update_not_scope: "fst (update st d kw) \<noteq> Some ScopeViolation"
proof (cases d)
  case None
  then show ?thesis by (simp add: update_def private_update_not_scope)
next
  case (Some es)
  show ?thesis
  proof (cases "private_update st es")
    case (Pair e st')
    then show ?thesis
      using Some private_update_not_scope[of st es] private_update_not_scope[of st' kw]
      by (cases e) (auto simp: update_def)
  qed
qed

lemma shift_not_scope:
  assumes "within_method st"
  shows "fst (shift_values_to_the_left st key) \<noteq> Some ScopeViolation"
proof (cases "py_int (after_last_underscore key)")
  case None
  then show ?thesis by (simp add: shift_values_to_the_left_def)
next
  case (Some i)
  show ?thesis
  proof (cases "i < key_gen_count st")
    case False
    then show ?thesis using Some by (simp add: shift_values_to_the_left_def)
  next
    case True
    show ?thesis
    proof (cases "new_prop_entries st [i..key_gen_count st - 1]")
      case None
      then show ?thesis using Some True by (simp add: shift_values_to_the_left_def)
    next
      case es: (Some es)
      show ?thesis
      proof (cases "map_of es key")
        case None
        then show ?thesis using Some True es by (simp add: shift_values_to_the_left_def)
      next
        case v: (Some v)
        obtain e1 st1 where s1: "setitem st key v = (e1, st1)" by (cases "setitem st key v")
        have e1: "e1 \<noteq> Some ScopeViolation" using setitem_not_scope[OF assms, of key v] s1 by simp
        show ?thesis
        proof (cases e1)
          case (Some e)
          then show ?thesis using \<open>py_int (after_last_underscore key) = Some i\<close> True es v s1 e1
            by (simp add: shift_values_to_the_left_def)
        next
          case None
          obtain e2 st2 where s2: "update st1 (Some es) [] = (e2, st2)"
            by (cases "update st1 (Some es) []")
          have e2: "e2 \<noteq> Some ScopeViolation" using update_not_scope[of st1 "Some es" "[]"] s2 by simp
          show ?thesis
            using \<open>py_int (after_last_underscore key) = Some i\<close> True es v s1 None s2 e2
            by (cases e2) (auto simp: shift_values_to_the_left_def Let_def)
        qed
      qed
    qed
  qed
qed

lemma delitem_not_scope:
  "within_method st \<Longrightarrow> fst (delitem st key) \<noteq> Some ScopeViolation"
  using shift_not_scope[of "st\<lparr>key_gen_count := key_gen_count st - 1,
      entries := (entries st)(key := None)\<rparr>" key]
  by (auto simp: delitem_def Let_def)

lemma add_values_type_error:
  assumes w: "within_method st" and oi: "is_order_invariant st" and c: "1 \<le> key_gen_count st"
    and ok: "\<forall>v \<in> set vs. check_value_type (prop_name st) v"
    and bad: "\<not> check_value_type (prop_name st) bad"
  shows "\<exists>st'. add_values st (vs @ bad # ws) = (Some PropTypeError, st') \<and>
           within_method st' \<and>
           key_gen_count st' = key_gen_count st + int (length vs) \<and>
           (\<forall>i < length vs.
              entries st' (generated_key (prop_name st) (key_gen_count st + int i)) = Some (vs ! i)) \<and>
           (\<forall>k. (\<forall>i < length vs. k \<noteq> generated_key (prop_name st) (key_gen_count st + int i)) \<longrightarrow>
              entries st' k = entries st k)"
  using w oi c ok bad
proof (induction vs arbitrary: st)
  case Nil
  then show ?case by (simp add: setitem_type_error)
next
  case (Cons v vs)
  let ?g = "generated_key (prop_name st)"
  let ?c = "key_gen_count st"
  let ?st1 = "st\<lparr>entries := (entries st)(?g ?c \<mapsto> v), key_gen_count := ?c + 1\<rparr>"
  have okv: "check_value_type (prop_name st) v" using Cons.prems(4) by simp
  have s: "setitem st (?g ?c) v = (None, st\<lparr>entries := (entries st)(?g ?c \<mapsto> v)\<rparr>)"
    by (rule setitem_generated[OF Cons.prems(1,2) okv Cons.prems(3)]) simp
  have step: "add_values st ((v # vs) @ bad # ws) = add_values ?st1 (vs @ bad # ws)"
    using s by simp
  have "\<exists>st'. add_values ?st1 (vs @ bad # ws) = (Some PropTypeError, st') \<and>
           within_method st' \<and>
           key_gen_count st' = key_gen_count ?st1 + int (length vs) \<and>
           (\<forall>i < length vs.
              entries st' (generated_key (prop_name ?st1) (key_gen_count ?st1 + int i)) = Some (vs ! i)) \<and>
           (\<forall>k. (\<forall>i < length vs. k \<noteq> generated_key (prop_name ?st1) (key_gen_count ?st1 + int i)) \<longrightarrow>
              entries st' k = entries ?st1 k)"
    using Cons.prems by (intro Cons.IH) simp_all
  then obtain st' where r: "add_values ?st1 (vs @ bad # ws) = (Some PropTypeError, st')"
    and w': "within_method st'"
    and c': "key_gen_count st' = ?c + 1 + int (length vs)"
    and new: "\<And>i. i < length vs \<Longrightarrow> entries st' (?g (?c + 1 + int i)) = Some (vs ! i)"
    and old: "\<And>k. (\<forall>i < length vs. k \<noteq> ?g (?c + 1 + int i)) \<Longrightarrow> entries st' k = entries ?st1 k"
    by auto
  have new': "entries st' (?g (?c + int i)) = Some ((v # vs) ! i)" if "i < length (v # vs)" for i
  proof (cases i)
    case 0
    have "\<forall>j < length vs. ?g ?c \<noteq> ?g (?c + 1 + int j)"
      using generated_key_inj[of "prop_name st" ?c] by fastforce
    then have "entries st' (?g ?c) = entries ?st1 (?g ?c)" by (rule old)
    then show ?thesis using 0 by simp
  next
    case (Suc j)
    then have "j < length vs" using that by simp
    moreover have "?c + int (Suc j) = ?c + 1 + int j" by simp
    ultimately show ?thesis using new[of j] Suc by (metis nth_Cons_Suc)
  qed
  have old': "entries st' k = entries st k"
    if "\<forall>i < length (v # vs). k \<noteq> ?g (?c + int i)" for k
  proof -
    have "\<forall>j < length vs. k \<noteq> ?g (?c + 1 + int j)"
    proof (intro allI impI)
      fix j assume "j < length vs"
      then have "k \<noteq> ?g (?c + int (Suc j))" using that by (metis Suc_less_eq length_Cons)
      moreover have "?c + int (Suc j) = ?c + 1 + int j" by simp
      ultimately show "k \<noteq> ?g (?c + 1 + int j)" by metis
    qed
    then have "entries st' k = entries ?st1 k" by (rule old)
    moreover have "k \<noteq> ?g ?c" using that[rule_format, of 0] by simp
    ultimately show ?thesis by simp
  qed
  have c'': "key_gen_count st' = ?c + int (length (v # vs))" using c' by simp
  have "add_values st ((v # vs) @ bad # ws) = (Some PropTypeError, st')"
    using step r by (simp only:)
  then show ?case
    using w' c'' new' old' by blast
qed

text \<open>
  Claim C10.  When \<open>add\<close> is called on an order-invariant property with positional
  values of which one fails the type check of the kind, the values before it are stored
  under the next generated keys and stay stored, the call raises \<open>TypeError\<close>, and
  \<open>_within_method\<close> stays true: item assignment and item deletion from outside are no
  longer rejected by \<open>_block_outside_modification\<close>.
\<close>

theorem add_type_error_leaves_guard_engaged:
  assumes "is_order_invariant st" and "1 \<le> key_gen_count st"
    and "\<forall>v \<in> set vs. check_value_type (prop_name st) v"
    and "\<not> check_value_type (prop_name st) bad"
  shows "\<exists>st'. add st (vs @ bad # ws) kwargs = (Some PropTypeError, st') \<and>
           within_method st' \<and>
           key_gen_count st' = key_gen_count st + int (length vs) \<and>
           (\<forall>i < length vs.
              entries st' (generated_key (prop_name st) (key_gen_count st + int i)) = Some (vs ! i)) \<and>
           (\<forall>k. (\<forall>i < length vs. k \<noteq> generated_key (prop_name st) (key_gen_count st + int i)) \<longrightarrow>
              entries st' k = entries st k) \<and>
           (\<forall>key v. fst (setitem st' key v) \<noteq> Some ScopeViolation) \<and>
           (\<forall>key. fst (delitem st' key) \<noteq> Some ScopeViolation)"
proof -
  let ?st0 = "st\<lparr>within_method := True\<rparr>"
  have "\<exists>st'. add_values ?st0 (vs @ bad # ws) = (Some PropTypeError, st') \<and>
           within_method st' \<and>
           key_gen_count st' = key_gen_count ?st0 + int (length vs) \<and>
           (\<forall>i < length vs.
              entries st' (generated_key (prop_name ?st0) (key_gen_count ?st0 + int i)) = Some (vs ! i)) \<and>
           (\<forall>k. (\<forall>i < length vs. k \<noteq> generated_key (prop_name ?st0) (key_gen_count ?st0 + int i)) \<longrightarrow>
              entries st' k = entries ?st0 k)"
    using assms by (intro add_values_type_error) simp_all
  then obtain st' where r: "add_values ?st0 (vs @ bad # ws) = (Some PropTypeError, st')"
    and w': "within_method st'"
    and rest: "key_gen_count st' = key_gen_count st + int (length vs)"
      "\<forall>i < length vs.
              entries st' (generated_key (prop_name st) (key_gen_count st + int i)) = Some (vs ! i)"
      "\<forall>k. (\<forall>i < length vs. k \<noteq> generated_key (prop_name st) (key_gen_count st + int i)) \<longrightarrow>
              entries st' k = entries st k"
    by auto
  have "add st (vs @ bad # ws) kwargs = (Some PropTypeError, st')"
    using r assms(1) by (simp add: add_def)
  moreover have "\<forall>key v. fst (setitem st' key v) \<noteq> Some ScopeViolation"
    using setitem_not_scope[OF w'] by blast
  moreover have "\<forall>key. fst (delitem st' key) \<noteq> Some ScopeViolation"
    using delitem_not_scope[OF w'] by blast
  ultimately show ?thesis using w' rest by blast
qed

lemma example_add_bad:
  "(\<lambda>(e, st). (e, observe_property [''inputs_1'', ''inputs_2''] st))
     (add (init_invariant Inputs) ([Component (1::nat)] @ Object 5 # [Component 3]) []) =
   (Some PropTypeError, 2, True, [Some (Component 1), None])"
  by code_simp

lemma example_assign_after_bad_add:
  "(\<lambda>(e, st). (e, observe_property [''inputs_1'', ''inputs_2''] st))
     (setitem (snd (add (init_invariant Inputs)
        ([Component (1::nat)] @ Object 5 # [Component 3]) [])) ''inputs_2'' PyNone) =
   (None, 2, True, [Some (Component 1), Some PyNone])"
  by code_simp

lemma example_delete_after_bad_add:
  "(\<lambda>(e, st). (e, observe_property [''inputs_1'', ''inputs_2''] st))
     (delitem (snd (add (init_invariant Inputs)
        ([Component (1::nat)] @ Object 5 # [Component 3]) [])) ''inputs_1'') =
   (None, 1, True, [None, None])"
  by code_simp

theorem add_type_error_leaves_guard_engaged_witness:
  "is_order_invariant (init_invariant Inputs :: nat component_property) \<and>
   1 \<le> key_gen_count (init_invariant Inputs :: nat component_property) \<and>
   list_all (check_value_type Inputs) [Component (1::nat)] \<and>
   \<not> check_value_type Inputs (Object 5 :: nat pvalue) \<and>
   (\<exists>st'. add (init_invariant Inputs) ([Component (1::nat)] @ Object 5 # [Component 3]) [] =
            (Some PropTypeError, st') \<and>
          within_method st' \<and> key_gen_count st' = 2 \<and>
          entries st' ''inputs_1'' = Some (Component 1) \<and>
          fst (setitem st' ''inputs_2'' PyNone) \<noteq> Some ScopeViolation \<and>
          fst (delitem st' ''inputs_1'') \<noteq> Some ScopeViolation) \<and>
   (\<lambda>(e, st). (e, observe_property [''inputs_1'', ''inputs_2''] st))
     (setitem (snd (add (init_invariant Inputs)
        ([Component (1::nat)] @ Object 5 # [Component 3]) [])) ''inputs_2'' PyNone) =
   (None, 2, True, [Some (Component 1), Some PyNone]) \<and>
   (\<lambda>(e, st). (e, observe_property [''inputs_1'', ''inputs_2''] st))
     (delitem (snd (add (init_invariant Inputs)
        ([Component (1::nat)] @ Object 5 # [Component 3]) [])) ''inputs_1'') =
   (None, 1, True, [None, None])"
proof -
  let ?st = "init_invariant Inputs :: nat component_property"
  have h1: "is_order_invariant ?st" and h2: "1 \<le> key_gen_count ?st"
    and h3: "\<forall>v \<in> set [Component (1::nat)]. check_value_type (prop_name ?st) v"
    and h4: "\<not> check_value_type (prop_name ?st) (Object 5 :: nat pvalue)"
    by (simp_all add: init_invariant_def)
  have g: "generated_key Inputs 1 = ''inputs_1''" by code_simp
  from add_type_error_leaves_guard_engaged[OF h1 h2 h3 h4, of "[Component 3]" "[]"]
  obtain st' where
    "add ?st ([Component (1::nat)] @ Object 5 # [Component 3]) [] = (Some PropTypeError, st')"
    "within_method st'" "key_gen_count st' = key_gen_count ?st + int (length [Component (1::nat)])"
    "\<forall>i < length [Component (1::nat)].
       entries st' (generated_key (prop_name ?st) (key_gen_count ?st + int i)) =
         Some ([Component (1::nat)] ! i)"
    "\<forall>key v. fst (setitem st' key v) \<noteq> Some ScopeViolation"
    "\<forall>key. fst (delitem st' key) \<noteq> Some ScopeViolation"
    by blast
  then have "\<exists>st'. add ?st ([Component (1::nat)] @ Object 5 # [Component 3]) [] =
            (Some PropTypeError, st') \<and>
          within_method st' \<and> key_gen_count st' = 2 \<and>
          entries st' ''inputs_1'' = Some (Component 1) \<and>
          fst (setitem st' ''inputs_2'' PyNone) \<noteq> Some ScopeViolation \<and>
          fst (delitem st' ''inputs_1'') \<noteq> Some ScopeViolation"
    using g by (intro exI[of _ st']) (simp add: init_invariant_def)
  then show ?thesis
    using h1 h2 h4 example_assign_after_bad_add example_delete_after_bad_add
    by (simp add: init_invariant_def)
qed

lemma setitem_outside:
  "\<not> within_method st \<Longrightarrow> setitem st key v = (Some ScopeViolation, st)"
  by (simp add: setitem_def)

lemma delitem_outside:
  "\<not> within_method st \<Longrightarrow> delitem st key = (Some ScopeViolation, st)"
  by (simp add: delitem_def)

text \<open>
  Claim C8.  \<open>update\<close> stores a value that fails the type check of the kind: on an
  \<open>inputs\<close> property holding \<open>None\<close> under its first key, and on an order-dependent
  \<open>inputs\<close> property with the key \<open>test\<close>, it stores an object that is neither a
  component nor \<open>None\<close>, which \<open>add\<close> refuses with \<open>TypeError\<close>.
\<close>

theorem update_stores_ill_typed_value:
  "\<not> check_value_type Inputs (Object 5 :: nat pvalue) \<and>
   fst (add (init_invariant Inputs) [Object 5 :: nat pvalue] []) = Some PropTypeError \<and>
   (\<lambda>(e, st). (e, observe_property [''inputs_1''] st))
     (update (snd (add (init_invariant Inputs) [PyNone :: nat pvalue] []))
        (Some [(''inputs_1'', Object 5)]) []) = (None, 2, False, [Some (Object 5)]) \<and>
   (\<lambda>(e, st). (e, entries st ''test''))
     (update (init_dependent Inputs [''test'']) None [(''test'', Object 5 :: nat pvalue)]) =
     (None, Some (Object 5))"
proof -
  have "\<not> check_value_type Inputs (Object 5 :: nat pvalue)" by simp
  moreover have "fst (add (init_invariant Inputs) [Object 5 :: nat pvalue] []) = Some PropTypeError"
    by code_simp
  moreover have "(\<lambda>(e, st). (e, observe_property [''inputs_1''] st))
     (update (snd (add (init_invariant Inputs) [PyNone :: nat pvalue] []))
        (Some [(''inputs_1'', Object 5)]) []) = (None, 2, False, [Some (Object 5)])"
    by code_simp
  moreover have "(\<lambda>(e, st). (e, entries st ''test''))
     (update (init_dependent Inputs [''test'']) None [(''test'', Object 5 :: nat pvalue)]) =
     (None, Some (Object 5))"
    by code_simp
  ultimately show ?thesis by blast
qed

text \<open>
  Claim C9.  On a new \<open>inputs\<close> property, item assignment and item deletion from outside
  are rejected.  After \<open>add(5)\<close> has raised \<open>TypeError\<close>, no method is running, and yet
  the assignment of \<open>None\<close> to \<open>inputs_1\<close> from outside is accepted and stored.
\<close>

theorem scope_guard_left_open:
  "fst (setitem (init_invariant Inputs :: nat component_property) ''inputs_1'' PyNone) =
     Some ScopeViolation \<and>
   fst (delitem (init_invariant Inputs :: nat component_property) ''inputs_1'') =
     Some ScopeViolation \<and>
   (\<lambda>(e, st). (e, observe_property [''inputs_1''] st))
     (add (init_invariant Inputs) [Object 5 :: nat pvalue] []) =
     (Some PropTypeError, 1, True, [None]) \<and>
   (\<lambda>(e, st). (e, observe_property [''inputs_1''] st))
     (setitem (snd (add (init_invariant Inputs) [Object 5 :: nat pvalue] [])) ''inputs_1'' PyNone) =
     (None, 1, True, [Some PyNone])"
proof -
  have "fst (setitem (init_invariant Inputs :: nat component_property) ''inputs_1'' PyNone) =
     Some ScopeViolation"
    by (simp add: setitem_outside init_invariant_def)
  moreover have "fst (delitem (init_invariant Inputs :: nat component_property) ''inputs_1'') =
     Some ScopeViolation"
    by (simp add: delitem_outside init_invariant_def)
  moreover have "(\<lambda>(e, st). (e, observe_property [''inputs_1''] st))
     (add (init_invariant Inputs) [Object 5 :: nat pvalue] []) =
     (Some PropTypeError, 1, True, [None])"
    by code_simp
  moreover have "(\<lambda>(e, st). (e, observe_property [''inputs_1''] st))
     (setitem (snd (add (init_invariant Inputs) [Object 5 :: nat pvalue] [])) ''inputs_1'' PyNone) =
     (None, 1, True, [Some PyNone])"
    by code_simp
  ultimately show ?thesis by blast
qed

end
